theory Spec2Isabelle
  imports Complex_Main "HOL-Library.AList"
begin

section \<open>BoardingLab: a shallow embedding of the boarding simulator\<close>

text \<open>
  The JavaScript sources are embedded as follows.
  \<^item> A JavaScript \<^verbatim>\<open>Map\<close> is an association list in insertion order: \<^verbatim>\<open>set\<close> is
    \<open>AList.update\<close> (replace in place, or append), \<^verbatim>\<open>get\<close> is \<open>map_of\<close>, where
    \<open>None\<close> stands for \<^verbatim>\<open>undefined\<close> (key absent).  A stored \<^verbatim>\<open>null\<close> is the value \<open>None\<close>
    of an option type, so a cell of the aisle map reads \<open>Some None\<close> when it is empty.
  \<^item> Integral JavaScript numbers (rows, ticks, ids, seeds) are \<open>int\<close>; priorities and the
    quotients returned by the generator are \<open>real\<close> (the finite numbers).
  \<^item> The string enums are datatypes; column labels are strings.
  \<^item> The seat key \<^verbatim>\<open>`${row}-${column}`\<close> is the pair \<open>(row, column)\<close>: for an integral row
    the text before the first dash after the sign is the row, so the pairs and the keys
    correspond one to one.
  \<^item> Mutable run-state objects live in \<open>passengerStates\<close> under their passenger id; a
    reference to such an object is its key, and an in-place mutation is an update of the
    entry under that key.
  \<^item> A thrown exception is \<open>Inl\<close> of a result of type \<open>error + 'a\<close>.
\<close>

subsection \<open>Passenger (Passenger.js)\<close>

datatype WalkSpeed = SLOW | NORMAL | FAST

datatype CarryOnSize = NONE | SMALL | LARGE

datatype ComplianceLevel = STRICT | NORMAL_COMPLIANCE | OPPORTUNISTIC

record passenger =
  pid :: int
  row :: int
  column :: string
  walkSpeed :: WalkSpeed
  carryOnSize :: CarryOnSize
  compliance :: ComplianceLevel
  groupId :: "int option"

fun SPEED_MULTIPLIERS :: "WalkSpeed \<Rightarrow> real" where
  "SPEED_MULTIPLIERS SLOW = 7 / 10"
| "SPEED_MULTIPLIERS NORMAL = 1"
| "SPEED_MULTIPLIERS FAST = 13 / 10"

fun STOW_TIMES :: "CarryOnSize \<Rightarrow> int" where
  "STOW_TIMES NONE = 0"
| "STOW_TIMES SMALL = 3"
| "STOW_TIMES LARGE = 8"

definition speedMultiplier :: "passenger \<Rightarrow> real" where
  "speedMultiplier p = SPEED_MULTIPLIERS (walkSpeed p)"

definition stowTime :: "passenger \<Rightarrow> int" where
  "stowTime p = STOW_TIMES (carryOnSize p)"

text \<open>\<^verbatim>\<open>s.charCodeAt(0) - 'A'.charCodeAt(0)\<close>; \<open>None\<close> is the \<^verbatim>\<open>NaN\<close> of the empty string.\<close>

definition columnIndex :: "string \<Rightarrow> int option" where
  "columnIndex s = (case s of [] \<Rightarrow> None | c # _ \<Rightarrow> Some (of_char c - 65))"

text \<open>\<^verbatim>\<open>String.fromCharCode('A'.charCodeAt(0) + i)\<close>, on the byte characters of HOL.\<close>

definition columnOfIndex :: "int \<Rightarrow> string" where
  "columnOfIndex i = [char_of (65 + i)]"

datatype SeatClass = WINDOW | MIDDLE | AISLE

text \<open>\<^verbatim>\<open>_computeSeatClass\<close>: a \<^verbatim>\<open>NaN\<close> index equals none of the four numbers.\<close>

definition seatClass :: "passenger \<Rightarrow> SeatClass" where
  "seatClass p =
     (let ci = columnIndex (column p) in
      if ci = Some 0 \<or> ci = Some 5 then WINDOW
      else if ci = Some 1 \<or> ci = Some 4 then MIDDLE
      else AISLE)"

definition seatsToPass :: "passenger \<Rightarrow> int option" where
  "seatsToPass p =
     (case columnIndex (column p) of
        None \<Rightarrow> None
      | Some ci \<Rightarrow> if ci < 3 then Some (2 - ci) else Some (ci - 3))"

record passengerContext =
  pc_id :: int
  pc_row :: int
  pc_column :: string
  pc_seatClass :: SeatClass
  pc_walkSpeed :: WalkSpeed
  pc_carryOnSize :: CarryOnSize
  pc_compliance :: ComplianceLevel
  pc_groupId :: "int option"
  pc_seatsToPass :: "int option"

definition toContext :: "passenger \<Rightarrow> passengerContext" where
  "toContext p =
     \<lparr> pc_id = pid p, pc_row = row p, pc_column = column p, pc_seatClass = seatClass p,
       pc_walkSpeed = walkSpeed p, pc_carryOnSize = carryOnSize p,
       pc_compliance = compliance p, pc_groupId = groupId p,
       pc_seatsToPass = seatsToPass p \<rparr>"

subsection \<open>RandomGenerator (RandomGenerator.js)\<close>

text \<open>
  The numbers of JavaScript are doubles.  The seed is an integer-valued double.  The
  product \<^verbatim>\<open>a * this.seed\<close> is exact while its absolute value stays below \<open>2^53\<close>; a
  larger product is rounded to the nearest double, which has 53 significant bits, a tie
  going to the even neighbour.  \<open>dropBits n\<close> is the number of low bits of \<open>n\<close> that do
  not fit, \<open>2^53 = 9007199254740992\<close>.
  (A product of \<open>2^1024\<close> or more would be \<^verbatim>\<open>Infinity\<close> and the seed \<^verbatim>\<open>NaN\<close> from then on;
  these seeds, and the seed \<^verbatim>\<open>NaN\<close> itself, have no value here.)
\<close>

function dropBits :: "int \<Rightarrow> nat" where
  "dropBits n = (if n < 9007199254740992 then 0 else Suc (dropBits (n div 2)))"
  by pat_completeness auto

termination dropBits
  by (relation "measure nat") auto

declare dropBits.simps [simp del]

definition roundToDouble :: "int \<Rightarrow> int" where
  "roundToDouble x =
     (let n = \<bar>x\<bar>; e = dropBits n; q = n div 2 ^ e; r = n mod 2 ^ e;
          q' = (if 2 * r > 2 ^ e \<or> (2 * r = 2 ^ e \<and> odd q) then q + 1 else q)
      in sgn x * (q' * 2 ^ e))"

text \<open>
  The remainder operator \<^verbatim>\<open>%\<close> of JavaScript truncates towards zero: the result has the
  sign of the dividend; on integer-valued doubles it is exact.  The quotient
  \<^verbatim>\<open>this.seed / m\<close> is the real number that the double approximates.
\<close>

definition js_rem :: "int \<Rightarrow> int \<Rightarrow> int" where
  "js_rem a b = sgn a * (\<bar>a\<bar> mod \<bar>b\<bar>)"

record RandomGenerator =
  seed :: int
  initialSeed :: int

definition newRandomGenerator :: "int \<Rightarrow> RandomGenerator" where
  "newRandomGenerator sd = \<lparr> seed = sd, initialSeed = sd \<rparr>"

definition rng_reset :: "RandomGenerator \<Rightarrow> RandomGenerator" where
  "rng_reset g = g\<lparr> seed := initialSeed g \<rparr>"

definition setSeed :: "int \<Rightarrow> RandomGenerator \<Rightarrow> RandomGenerator" where
  "setSeed sd g = g\<lparr> seed := sd, initialSeed := sd \<rparr>"

definition rng_next :: "RandomGenerator \<Rightarrow> real \<times> RandomGenerator" where
  "rng_next g =
     (let a = 48271; m = 2147483647; s' = js_rem (roundToDouble (a * seed g)) m
      in (real_of_int s' / real_of_int m, g\<lparr> seed := s' \<rparr>))"

text \<open>The generator after \<open>n\<close> calls of \<^verbatim>\<open>next()\<close>.\<close>

fun draws :: "nat \<Rightarrow> RandomGenerator \<Rightarrow> RandomGenerator" where
  "draws 0 g = g"
| "draws (Suc n) g = draws n (snd (rng_next g))"

text \<open>
  \<^verbatim>\<open>nextInt\<close>, \<^verbatim>\<open>pick\<close> and \<^verbatim>\<open>shuffle\<close>.  For a range of fewer than \<open>2^21\<close> values the floor
  of the product of doubles is the floor of the product of the reals: the real product is
  either 0 or at least \<open>1 / (2^31 - 1)\<close> away from every integer.
\<close>

definition nextInt :: "int \<Rightarrow> int \<Rightarrow> RandomGenerator \<Rightarrow> int \<times> RandomGenerator" where
  "nextInt lo hi g =
     (case rng_next g of (v, g') \<Rightarrow> (\<lfloor>v * real_of_int (hi - lo + 1)\<rfloor> + lo, g'))"

text \<open>An index outside the array literal reads \<^verbatim>\<open>undefined\<close>, here \<open>None\<close>.\<close>

definition pick :: "'a list \<Rightarrow> RandomGenerator \<Rightarrow> 'a option \<times> RandomGenerator" where
  "pick xs g =
     (case nextInt 0 (int (length xs) - 1) g of
        (j, g') \<Rightarrow> (if 0 \<le> j \<and> j < int (length xs) then Some (xs ! nat j) else None, g'))"

text \<open>
  An array that is written by index: its elements, \<open>None\<close> for \<^verbatim>\<open>undefined\<close>, and the
  properties that a write to a negative index creates.  A write beyond the end extends
  the array.
\<close>

record 'a jsArray =
  elems :: "'a option list"
  props :: "(int \<times> 'a option) list"

definition arrayOf :: "'a list \<Rightarrow> 'a jsArray" where
  "arrayOf xs = \<lparr> elems = map Some xs, props = [] \<rparr>"

definition arrayGet :: "'a jsArray \<Rightarrow> int \<Rightarrow> 'a option" where
  "arrayGet a j =
     (if 0 \<le> j \<and> j < int (length (elems a)) then elems a ! nat j
      else (case map_of (props a) j of Some v \<Rightarrow> v | None \<Rightarrow> None))"

definition arraySet :: "'a jsArray \<Rightarrow> int \<Rightarrow> 'a option \<Rightarrow> 'a jsArray" where
  "arraySet a j v =
     (if 0 \<le> j then
        (if j < int (length (elems a)) then a\<lparr> elems := (elems a)[nat j := v] \<rparr>
         else a\<lparr> elems := elems a @ replicate (nat j - length (elems a)) None @ [v] \<rparr>)
      else a\<lparr> props := AList.update j v (props a) \<rparr>)"

text \<open>
  The loop of \<^verbatim>\<open>shuffle\<close> for \<open>i\<close> from \<open>length - 1\<close> down to 1; the destructuring swap reads
  both elements, then writes \<^verbatim>\<open>array[i]\<close>, then \<^verbatim>\<open>array[j]\<close>.
\<close>

fun shuffleLoop :: "nat \<Rightarrow> 'a jsArray \<Rightarrow> RandomGenerator \<Rightarrow> 'a jsArray \<times> RandomGenerator" where
  "shuffleLoop 0 a g = (a, g)"
| "shuffleLoop (Suc i) a g =
     (case nextInt 0 (int (Suc i)) g of
        (j, g') \<Rightarrow>
          (let ai = arrayGet a (int (Suc i)); aj = arrayGet a j
           in shuffleLoop i (arraySet (arraySet a (int (Suc i)) aj) j ai) g'))"

definition shuffle :: "'a jsArray \<Rightarrow> RandomGenerator \<Rightarrow> 'a jsArray \<times> RandomGenerator" where
  "shuffle a g = shuffleLoop (length (elems a) - 1) a g"

subsection \<open>Aircraft (Aircraft.js)\<close>

record aircraft =
  rows :: int
  columns :: "string list"
  aislePosition :: int
  binCapacityPerRow :: int
  binCapacity :: "(int \<times> int) list"
  seats :: "((int \<times> string) \<times> passenger option) list"
  aisle :: "(int \<times> passenger option) list"

text \<open>The loops of the constructor and of \<^verbatim>\<open>reset\<close>, over the maps they write.\<close>

definition resetBins :: "int \<Rightarrow> int \<Rightarrow> (int \<times> int) list \<Rightarrow> (int \<times> int) list" where
  "resetBins n c m = fold (\<lambda>r. AList.update r c) [1..n] m"

definition resetSeats ::
  "int \<Rightarrow> string list \<Rightarrow> ((int \<times> string) \<times> passenger option) list
     \<Rightarrow> ((int \<times> string) \<times> passenger option) list" where
  "resetSeats n cols m =
     fold (\<lambda>r acc. fold (\<lambda>c. AList.update (r, c) None) cols acc) [1..n] m"

definition resetAisle :: "int \<Rightarrow> (int \<times> passenger option) list \<Rightarrow> (int \<times> passenger option) list" where
  "resetAisle n m = fold (\<lambda>r. AList.update r None) [0..n] m"

text \<open>\<^verbatim>\<open>new Aircraft(config)\<close>, the configuration given in full.\<close>

definition Aircraft :: "int \<Rightarrow> string list \<Rightarrow> int \<Rightarrow> int \<Rightarrow> aircraft" where
  "Aircraft n cols ap cap =
     \<lparr> rows = n, columns = cols, aislePosition = ap, binCapacityPerRow = cap,
       binCapacity = resetBins n cap [],
       seats = resetSeats n cols [],
       aisle = resetAisle n [] \<rparr>"

definition DEFAULT_AIRCRAFT :: aircraft where
  "DEFAULT_AIRCRAFT = Aircraft 30 [''A'', ''B'', ''C'', ''D'', ''E'', ''F''] 3 6"

definition aircraft_reset :: "aircraft \<Rightarrow> aircraft" where
  "aircraft_reset ac =
     ac\<lparr> binCapacity := resetBins (rows ac) (binCapacityPerRow ac) (binCapacity ac),
         seats := resetSeats (rows ac) (columns ac) (seats ac),
         aisle := resetAisle (rows ac) (aisle ac) \<rparr>"

text \<open>\<^verbatim>\<open>get(key) !== null\<close>: an absent key (\<^verbatim>\<open>undefined\<close>) counts as occupied.\<close>

definition isSeatOccupied :: "aircraft \<Rightarrow> int \<Rightarrow> string \<Rightarrow> bool" where
  "isSeatOccupied ac r c = (map_of (seats ac) (r, c) \<noteq> Some None)"

definition seatPassenger :: "passenger \<Rightarrow> aircraft \<Rightarrow> aircraft" where
  "seatPassenger p ac = ac\<lparr> seats := AList.update (row p, column p) (Some p) (seats ac) \<rparr>"

definition isAisleOccupied :: "aircraft \<Rightarrow> int \<Rightarrow> bool" where
  "isAisleOccupied ac r = (map_of (aisle ac) r \<noteq> Some None)"

definition placeInAisle :: "passenger \<Rightarrow> int \<Rightarrow> aircraft \<Rightarrow> aircraft" where
  "placeInAisle p r ac = ac\<lparr> aisle := AList.update r (Some p) (aisle ac) \<rparr>"

definition removeFromAisle :: "int \<Rightarrow> aircraft \<Rightarrow> aircraft" where
  "removeFromAisle r ac = ac\<lparr> aisle := AList.update r None (aisle ac) \<rparr>"

definition required :: "CarryOnSize \<Rightarrow> int" where
  "required sz = (if sz = SMALL then 1 else 2)"

text \<open>\<^verbatim>\<open>undefined >= required\<close> is false.\<close>

definition hasBinCapacity :: "aircraft \<Rightarrow> int \<Rightarrow> CarryOnSize \<Rightarrow> bool" where
  "hasBinCapacity ac r sz =
     (if sz = NONE then True
      else (case map_of (binCapacity ac) r of None \<Rightarrow> False | Some cur \<Rightarrow> cur \<ge> required sz))"

definition useBinCapacity :: "int \<Rightarrow> CarryOnSize \<Rightarrow> aircraft \<Rightarrow> bool \<times> aircraft" where
  "useBinCapacity r sz ac =
     (if sz = NONE then (True, ac)
      else (case map_of (binCapacity ac) r of
              None \<Rightarrow> (False, ac)
            | Some cur \<Rightarrow>
                if cur \<ge> required sz
                then (True, ac\<lparr> binCapacity := AList.update r (cur - required sz) (binCapacity ac) \<rparr>)
                else (False, ac)))"

definition getBlockingSeats :: "aircraft \<Rightarrow> int \<Rightarrow> string \<Rightarrow> string list" where
  "getBlockingSeats ac r targetColumn =
     (case columnIndex targetColumn of
        None \<Rightarrow> []
      | Some targetIndex \<Rightarrow>
          if targetIndex < aislePosition ac
          then filter (isSeatOccupied ac r)
                 (map columnOfIndex (rev [targetIndex + 1 .. aislePosition ac - 1]))
          else filter (isSeatOccupied ac r)
                 (map columnOfIndex [aislePosition ac .. targetIndex - 1]))"

text \<open>The mutating operations of the layout, and a sequence of them applied in order.\<close>

datatype layoutOp =
  OpSeatPassenger passenger
| OpPlaceInAisle passenger int
| OpRemoveFromAisle int
| OpUseBinCapacity int CarryOnSize
| OpReset

fun applyOp :: "layoutOp \<Rightarrow> aircraft \<Rightarrow> aircraft" where
  "applyOp (OpSeatPassenger p) ac = seatPassenger p ac"
| "applyOp (OpPlaceInAisle p r) ac = placeInAisle p r ac"
| "applyOp (OpRemoveFromAisle r) ac = removeFromAisle r ac"
| "applyOp (OpUseBinCapacity r sz) ac = snd (useBinCapacity r sz ac)"
| "applyOp OpReset ac = aircraft_reset ac"

definition applyOps :: "layoutOp list \<Rightarrow> aircraft \<Rightarrow> aircraft" where
  "applyOps ops ac = fold applyOp ops ac"

subsection \<open>Array.prototype.sort with a comparator\<close>

text \<open>
  The sort of ECMAScript 2019 is stable: of two elements the comparator calls equal
  (result \<open>0\<close>), the one that came first stays first.  \<open>cmp a b < 0\<close> puts \<open>a\<close> before
  \<open>b\<close>, \<open>cmp a b > 0\<close> puts \<open>b\<close> before \<open>a\<close>.
\<close>

fun js_insert :: "('a \<Rightarrow> 'a \<Rightarrow> 'n::linordered_idom) \<Rightarrow> 'a \<Rightarrow> 'a list \<Rightarrow> 'a list" where
  "js_insert cmp x [] = [x]"
| "js_insert cmp x (y # ys) = (if cmp x y \<le> 0 then x # y # ys else y # js_insert cmp x ys)"

definition js_sort :: "('a \<Rightarrow> 'a \<Rightarrow> 'n::linordered_idom) \<Rightarrow> 'a list \<Rightarrow> 'a list" where
  "js_sort cmp xs = foldr (js_insert cmp) xs []"

subsection \<open>Simulation (Simulation.js)\<close>

datatype PassengerState = WAITING | WALKING | STOWING | SHUFFLING | SEATING | SEATED

datatype EventType =
  ENTER | MOVE | STOW_START | STOW_END | SHUFFLE_START | SHUFFLE_END | SEAT
| AISLE_BLOCKED | BIN_FULL

text \<open>The kind-specific payload that \<^verbatim>\<open>_recordEvent\<close> spreads into the event.\<close>

datatype EventData =
  NoData
| RowData int
| MoveData int int
| BlockedData int int
| ShuffleData int "string list"
| SeatData int string

record event =
  ev_step :: int
  ev_type :: EventType
  passengerId :: int
  passengerRow :: int
  passengerColumn :: string
  ev_data :: EventData

record pstate =
  passenger :: passenger
  state :: PassengerState
  aisleRow :: int
  stowRemaining :: int
  shuffleRemaining :: int
  waitTime :: int
  enteredAt :: int
  seatedAt :: int

datatype error = TypeError

record sim =
  aircraft :: aircraft
  originalPassengers :: "passenger list"
  currentStep :: int
  isComplete :: bool
  events :: "event list"
  passengerStates :: "(int \<times> pstate) list"
  queue :: "int option list"

definition initialState :: "passenger \<Rightarrow> pstate" where
  "initialState p =
     \<lparr> passenger = p, state = WAITING, aisleRow = - 1, stowRemaining = 0,
       shuffleRemaining = 0, waitTime = 0, enteredAt = - 1, seatedAt = - 1 \<rparr>"

definition reset :: "sim \<Rightarrow> sim" where
  "reset s =
     s\<lparr> aircraft := aircraft_reset (aircraft s),
        currentStep := 0,
        isComplete := False,
        events := [],
        passengerStates :=
          fold (\<lambda>p. AList.update (pid p) (initialState p)) (originalPassengers s) [],
        queue := [] \<rparr>"

text \<open>\<^verbatim>\<open>new Simulation({ passengers, aircraft })\<close>\<close>

definition Simulation :: "passenger list \<Rightarrow> aircraft \<Rightarrow> sim" where
  "Simulation ps ac =
     reset \<lparr> aircraft = ac, originalPassengers = ps, currentStep = 0, isComplete = False,
             events = [], passengerStates = [], queue = [] \<rparr>"

text \<open>
  The queue holds references to the run-state objects: \<open>Some k\<close> is the object stored
  under key \<open>k\<close>, \<open>None\<close> is the \<^verbatim>\<open>undefined\<close> that \<^verbatim>\<open>get\<close> returns for an unknown id.
\<close>

definition setBoardingOrder :: "int list \<Rightarrow> sim \<Rightarrow> sim" where
  "setBoardingOrder orderedIds s =
     s\<lparr> queue := map (\<lambda>i. map_option (\<lambda>_. i) (map_of (passengerStates s) i)) orderedIds \<rparr>"

definition recordEvent :: "EventType \<Rightarrow> passenger \<Rightarrow> EventData \<Rightarrow> sim \<Rightarrow> sim" where
  "recordEvent t p d s =
     s\<lparr> events := events s @
          [\<lparr> ev_step = currentStep s, ev_type = t, passengerId = pid p,
             passengerRow = row p, passengerColumn = column p, ev_data = d \<rparr>] \<rparr>"

text \<open>Writing the fields of the run-state object stored under key \<open>k\<close>.\<close>

definition putState :: "int \<Rightarrow> pstate \<Rightarrow> sim \<Rightarrow> sim" where
  "putState k ps s = s\<lparr> passengerStates := AList.update k ps (passengerStates s) \<rparr>"

definition inAisleState :: "pstate \<Rightarrow> bool" where
  "inAisleState ps = (state ps \<noteq> WAITING \<and> state ps \<noteq> SEATED \<and> aisleRow ps \<ge> 0)"

definition getAislePassengersSorted :: "sim \<Rightarrow> (int \<times> pstate) list" where
  "getAislePassengersSorted s =
     js_sort (\<lambda>a b. aisleRow (snd b) - aisleRow (snd a))
       (filter (\<lambda>kp. inAisleState (snd kp)) (passengerStates s))"

definition startSeating :: "int \<Rightarrow> pstate \<Rightarrow> sim \<Rightarrow> sim" where
  "startSeating k ps s =
     (let blocking = getBlockingSeats (aircraft s) (row (passenger ps)) (column (passenger ps))
      in if length blocking > 0
         then recordEvent SHUFFLE_START (passenger ps) (ShuffleData (aisleRow ps) blocking)
                (putState k (ps\<lparr> state := SHUFFLING,
                                 shuffleRemaining := int (length blocking) * 3 \<rparr>) s)
         else putState k (ps\<lparr> state := SEATING \<rparr>) s)"

definition processWalking :: "int \<Rightarrow> pstate \<Rightarrow> sim \<Rightarrow> sim" where
  "processWalking k ps s =
     (let p = passenger ps; r = aisleRow ps in
      if r = row p then
        (if carryOnSize p \<noteq> NONE then
           (let s1 = recordEvent STOW_START p (RowData r)
                       (putState k (ps\<lparr> state := STOWING, stowRemaining := stowTime p \<rparr>) s)
            in if \<not> hasBinCapacity (aircraft s1) r (carryOnSize p)
               then recordEvent BIN_FULL p (RowData r) s1
               else s1)
         else startSeating k ps s)
      else
        (let nextRow = r + 1 in
         if nextRow \<le> rows (aircraft s) \<and> \<not> isAisleOccupied (aircraft s) nextRow
         then recordEvent MOVE p (MoveData r nextRow)
                (putState k (ps\<lparr> aisleRow := nextRow \<rparr>)
                   (s\<lparr> aircraft := placeInAisle p nextRow (removeFromAisle r (aircraft s)) \<rparr>))
         else recordEvent AISLE_BLOCKED p (BlockedData r nextRow)
                (putState k (ps\<lparr> waitTime := waitTime ps + 1 \<rparr>) s)))"

definition processStowing :: "int \<Rightarrow> pstate \<Rightarrow> sim \<Rightarrow> sim" where
  "processStowing k ps s =
     (let ps1 = ps\<lparr> stowRemaining := stowRemaining ps - 1 \<rparr> in
      if stowRemaining ps1 \<le> 0 then
        startSeating k ps1
          (recordEvent STOW_END (passenger ps1) (RowData (aisleRow ps1))
             (s\<lparr> aircraft :=
                   snd (useBinCapacity (aisleRow ps1) (carryOnSize (passenger ps1)) (aircraft s)) \<rparr>))
      else putState k (ps1\<lparr> waitTime := waitTime ps1 + 1 \<rparr>) s)"

definition processShuffling :: "int \<Rightarrow> pstate \<Rightarrow> sim \<Rightarrow> sim" where
  "processShuffling k ps s =
     (let ps1 = ps\<lparr> shuffleRemaining := shuffleRemaining ps - 1, waitTime := waitTime ps + 1 \<rparr> in
      if shuffleRemaining ps1 \<le> 0
      then putState k (ps1\<lparr> state := SEATING \<rparr>)
             (recordEvent SHUFFLE_END (passenger ps1) (RowData (aisleRow ps1)) s)
      else putState k ps1 s)"

definition processSeating :: "int \<Rightarrow> pstate \<Rightarrow> sim \<Rightarrow> sim" where
  "processSeating k ps s =
     recordEvent SEAT (passenger ps) (SeatData (row (passenger ps)) (column (passenger ps)))
       (putState k (ps\<lparr> state := SEATED, seatedAt := currentStep s \<rparr>)
          (s\<lparr> aircraft := seatPassenger (passenger ps) (removeFromAisle (aisleRow ps) (aircraft s)) \<rparr>))"

text \<open>
  The loop of \<^verbatim>\<open>step\<close> holds references, so each passenger is read when its turn comes:
  the run-state is looked up under its key at that moment.
\<close>

definition processPassengerInAisle :: "int \<Rightarrow> sim \<Rightarrow> sim" where
  "processPassengerInAisle k s =
     (case map_of (passengerStates s) k of
        None \<Rightarrow> s
      | Some ps \<Rightarrow>
          (case state ps of
             WALKING \<Rightarrow> processWalking k ps s
           | STOWING \<Rightarrow> processStowing k ps s
           | SHUFFLING \<Rightarrow> processShuffling k ps s
           | SEATING \<Rightarrow> processSeating k ps s
           | _ \<Rightarrow> s))"

text \<open>
  \<^verbatim>\<open>ps.state = ...\<close> on an \<^verbatim>\<open>undefined\<close> queue entry throws a TypeError, after the
  entry has been shifted out.
\<close>

definition tryAddFromQueue :: "sim \<Rightarrow> error + sim" where
  "tryAddFromQueue s =
     (case queue s of
        [] \<Rightarrow> Inr s
      | q # rest \<Rightarrow>
          if isAisleOccupied (aircraft s) 0 then Inr s
          else (case q of
                  None \<Rightarrow> Inl TypeError
                | Some k \<Rightarrow>
                    (case map_of (passengerStates s) k of
                       None \<Rightarrow> Inl TypeError
                     | Some ps \<Rightarrow>
                         Inr (recordEvent ENTER (passenger ps) NoData
                               (putState k (ps\<lparr> state := WALKING, aisleRow := 0,
                                                enteredAt := currentStep s \<rparr>)
                                  (s\<lparr> queue := rest,
                                      aircraft := placeInAisle (passenger ps) 0 (aircraft s) \<rparr>))))))"

definition checkCompletion :: "sim \<Rightarrow> sim" where
  "checkCompletion s =
     (if list_all (\<lambda>kp. state (snd kp) = SEATED) (passengerStates s)
      then s\<lparr> isComplete := True \<rparr> else s)"

text \<open>\<^verbatim>\<open>step()\<close> returns whether the simulation is still running, and the new state.\<close>

definition step :: "sim \<Rightarrow> error + (bool \<times> sim)" where
  "step s =
     (if isComplete s then Inr (False, s)
      else
        (let s1 = s\<lparr> currentStep := currentStep s + 1 \<rparr>;
             aislePassengers = getAislePassengersSorted s1;
             s2 = fold (\<lambda>kp. processPassengerInAisle (fst kp)) aislePassengers s1
         in case tryAddFromQueue s2 of
              Inl e \<Rightarrow> Inl e
            | Inr s3 \<Rightarrow> (let s4 = checkCompletion s3 in Inr (\<not> isComplete s4, s4))))"

text \<open>Calling \<^verbatim>\<open>step()\<close> \<open>n\<close> times in a row.\<close>

fun steps :: "nat \<Rightarrow> sim \<Rightarrow> error + sim" where
  "steps 0 s = Inr s"
| "steps (Suc n) s = (case step s of Inl e \<Rightarrow> Inl e | Inr (_, s') \<Rightarrow> steps n s')"

record snapshotEntry =
  se_id :: int
  se_row :: int
  se_column :: string
  se_state :: PassengerState
  se_aisleRow :: int
  se_waitTime :: int

record snapshot =
  sn_step :: int
  sn_isComplete :: bool
  passengersInAisle :: "snapshotEntry list"
  passengersSeated :: "snapshotEntry list"
  passengersWaiting :: "snapshotEntry list"
  queueLength :: nat
  seatedCount :: nat
  totalPassengers :: nat

definition snapshotEntryOf :: "pstate \<Rightarrow> snapshotEntry" where
  "snapshotEntryOf ps =
     \<lparr> se_id = pid (passenger ps), se_row = row (passenger ps),
       se_column = column (passenger ps), se_state = state ps,
       se_aisleRow = aisleRow ps, se_waitTime = waitTime ps \<rparr>"

definition getSnapshot :: "sim \<Rightarrow> snapshot" where
  "getSnapshot s =
     (let pss = map snd (passengerStates s);
          seated = map snapshotEntryOf (filter (\<lambda>ps. state ps = SEATED) pss)
      in \<lparr> sn_step = currentStep s, sn_isComplete = isComplete s,
           passengersInAisle =
             map snapshotEntryOf
               (filter (\<lambda>ps. state ps \<noteq> SEATED \<and> state ps \<noteq> WAITING) pss),
           passengersSeated = seated,
           passengersWaiting = map snapshotEntryOf (filter (\<lambda>ps. state ps = WAITING) pss),
           queueLength = length (queue s),
           seatedCount = length seated,
           totalPassengers = length (passengerStates s) \<rparr>)"

text \<open>\<^verbatim>\<open>runToCompletion(maxSteps)\<close>: the number of steps taken, and the final state.\<close>

function runToCompletion :: "int \<Rightarrow> sim \<Rightarrow> error + (int \<times> sim)" where
  "runToCompletion maxSteps s =
     (if \<not> isComplete s \<and> currentStep s < maxSteps
      then (case step s of Inl e \<Rightarrow> Inl e | Inr (_, s') \<Rightarrow> runToCompletion maxSteps s')
      else Inr (currentStep s, s))"
  by pat_completeness auto

text \<open>The states and aisle cells of all run-states, in the order of \<open>passengerStates\<close>.\<close>

definition positions :: "sim \<Rightarrow> (int \<times> PassengerState \<times> int) list" where
  "positions s = map (\<lambda>kp. (fst kp, state (snd kp), aisleRow (snd kp))) (passengerStates s)"

subsection \<open>generatePassengers (Passenger.js)\<close>

text \<open>\<^verbatim>\<open>new Passenger(config)\<close>: an attribute that is \<^verbatim>\<open>undefined\<close> takes its default.\<close>

definition newPassenger ::
  "int \<Rightarrow> int \<Rightarrow> string \<Rightarrow> WalkSpeed option \<Rightarrow> CarryOnSize option \<Rightarrow> ComplianceLevel option
     \<Rightarrow> int option \<Rightarrow> passenger" where
  "newPassenger i r c ws cs cl gid =
     \<lparr> pid = i, row = r, column = c,
       walkSpeed = (case ws of None \<Rightarrow> NORMAL | Some w \<Rightarrow> w),
       carryOnSize = (case cs of None \<Rightarrow> SMALL | Some z \<Rightarrow> z),
       compliance = (case cl of None \<Rightarrow> NORMAL_COMPLIANCE | Some l \<Rightarrow> l),
       groupId = gid \<rparr>"

definition allSeats :: "int \<Rightarrow> string list \<Rightarrow> (int \<times> string) list" where
  "allSeats n cols = concat (map (\<lambda>r. map (Pair r) cols) [1..n])"

text \<open>\<^verbatim>\<open>array.slice(0, count)\<close>; a negative \<open>count\<close> counts from the end.\<close>

definition slice0 :: "int \<Rightarrow> 'a list \<Rightarrow> 'a list" where
  "slice0 n xs =
     (if n < 0 then take (nat (max (int (length xs) + n) 0)) xs else take (nat n) xs)"

text \<open>
  The callback of \<^verbatim>\<open>selectedSeats.map\<close>, seat by seat: three picks, then the passenger.
  Reading \<^verbatim>\<open>seat.row\<close> of an \<^verbatim>\<open>undefined\<close> seat throws a TypeError.
\<close>

fun makePassengers ::
  "int \<Rightarrow> (int \<times> string) option list \<Rightarrow> RandomGenerator
     \<Rightarrow> error + (passenger list \<times> RandomGenerator)" where
  "makePassengers index [] g = Inr ([], g)"
| "makePassengers index (seat # rest) g =
     (case pick [SLOW, NORMAL, NORMAL, NORMAL, FAST] g of
        (ws, g1) \<Rightarrow>
     (case pick [NONE, SMALL, SMALL, SMALL, LARGE] g1 of
        (cs, g2) \<Rightarrow>
     (case pick [STRICT, NORMAL_COMPLIANCE, NORMAL_COMPLIANCE, NORMAL_COMPLIANCE, OPPORTUNISTIC] g2 of
        (cl, g3) \<Rightarrow>
     (case seat of
        None \<Rightarrow> Inl TypeError
      | Some (r, c) \<Rightarrow>
          (case makePassengers (index + 1) rest g3 of
             Inl e \<Rightarrow> Inl e
           | Inr (ps, g') \<Rightarrow> Inr (newPassenger (index + 1) r c ws cs cl None # ps, g'))))))"

definition generatePassengers ::
  "int \<Rightarrow> int \<Rightarrow> string list \<Rightarrow> RandomGenerator \<Rightarrow> error + (passenger list \<times> RandomGenerator)" where
  "generatePassengers count n cols g =
     (case shuffle (arrayOf (allSeats n cols)) g of
        (shuffled, g1) \<Rightarrow> makePassengers 0 (slice0 count (elems shuffled)) g1)"

subsection \<open>AlgorithmRunner (AlgorithmRunner.js)\<close>

record algorithmContext =
  totalRows :: int
  totalPassengers :: int
  ctx_columns :: "string list"

text \<open>
  The priority function is user code.  \<^verbatim>\<open>runAlgorithm\<close> neither validates it nor its
  results: it calls the function once for every passenger and reads the results only in
  the comparator \<^verbatim>\<open>b.priority - a.priority\<close>, where the subtraction converts both operands
  to numbers.  The function is modelled by the number each call yields: a finite double,
  given as the real it stands for, \<^verbatim>\<open>NaN\<close>, or an infinity.  (A call that throws ends
  \<^verbatim>\<open>runAlgorithm\<close> with that exception before any order exists.)
\<close>

datatype jsNumber = Finite real | NaN | PlusInfinity | MinusInfinity

text \<open>
  The subtraction of doubles.  The difference of two finite doubles has the sign of the
  difference of the reals, also where it is rounded or overflows.
\<close>

fun jsMinus :: "jsNumber \<Rightarrow> jsNumber \<Rightarrow> jsNumber" where
  "jsMinus NaN b = NaN"
| "jsMinus a NaN = NaN"
| "jsMinus (Finite a) (Finite b) = Finite (a - b)"
| "jsMinus (Finite a) PlusInfinity = MinusInfinity"
| "jsMinus (Finite a) MinusInfinity = PlusInfinity"
| "jsMinus PlusInfinity PlusInfinity = NaN"
| "jsMinus PlusInfinity b = PlusInfinity"
| "jsMinus MinusInfinity MinusInfinity = NaN"
| "jsMinus MinusInfinity b = MinusInfinity"

text \<open>
  What the sort makes of the comparator's result: \<^verbatim>\<open>NaN\<close> counts as \<open>+0\<close>, and otherwise
  only the sign is read, so that an infinity is as good as \<open>1\<close> or \<open>-1\<close>.
\<close>

fun comparatorValue :: "jsNumber \<Rightarrow> real" where
  "comparatorValue (Finite v) = v"
| "comparatorValue NaN = 0"
| "comparatorValue PlusInfinity = 1"
| "comparatorValue MinusInfinity = - 1"

definition runAlgorithm ::
  "(passengerContext \<Rightarrow> algorithmContext \<Rightarrow> jsNumber) \<Rightarrow> passenger list \<Rightarrow> algorithmContext
     \<Rightarrow> int list" where
  "runAlgorithm priorityFn passengers ctx =
     (let withPriority = map (\<lambda>p. (pid p, priorityFn (toContext p) ctx)) passengers
      in map fst (js_sort (\<lambda>a b. comparatorValue (jsMinus (snd b) (snd a))) withPriority))"

text \<open>The preset Back-to-Front: \<^verbatim>\<open>return passenger.row\<close>.\<close>

definition backToFrontPriority :: "passengerContext \<Rightarrow> algorithmContext \<Rightarrow> jsNumber" where
  "backToFrontPriority p ctx = Finite (real_of_int (pc_row p))"

text \<open>
  The order the boarding sequence is to have: higher priority first, and of two equal
  priorities the smaller id first, with \<^verbatim>\<open>>\<close> and \<^verbatim>\<open>===\<close> as JavaScript has them on
  numbers (both false when an operand is \<^verbatim>\<open>NaN\<close>).
\<close>

fun jsGreater :: "jsNumber \<Rightarrow> jsNumber \<Rightarrow> bool" where
  "jsGreater NaN b = False"
| "jsGreater a NaN = False"
| "jsGreater (Finite a) (Finite b) = (a > b)"
| "jsGreater a PlusInfinity = False"
| "jsGreater MinusInfinity b = False"
| "jsGreater PlusInfinity b = True"
| "jsGreater (Finite a) MinusInfinity = True"

definition jsEquals :: "jsNumber \<Rightarrow> jsNumber \<Rightarrow> bool" where
  "jsEquals a b = (a \<noteq> NaN \<and> a = b)"

definition boardsEarlier :: "(int \<Rightarrow> jsNumber) \<Rightarrow> int \<Rightarrow> int \<Rightarrow> bool" where
  "boardsEarlier prio i j =
     (jsGreater (prio i) (prio j) \<or> (jsEquals (prio i) (prio j) \<and> i < j))"

subsection \<open>Validation of a priority function (AlgorithmRunner.js)\<close>

text \<open>
  A priority function is user code: it may return any JavaScript value, it may throw, and
  it may keep state between calls. A call therefore takes the state of the function and
  returns a \<open>callResult\<close> with the new state. \<open>performance.now()\<close> is a
  clock \<open>now\<close>, read once before the sample loop (\<open>now 0\<close>) and once
  after every passenger that passed the checks. An exception that leaves
  \<open>validateAlgorithm\<close> is the value \<open>Inl\<close> of its message.
\<close>

datatype jsValue =
  JNumber real | JNaN | JInfinity | JNegInfinity
| JUndefined | JNull | JBoolean bool | JString string | JObject nat | JFunction nat

fun typeof :: "jsValue \<Rightarrow> string" where
  "typeof (JNumber _) = ''number''"
| "typeof JNaN = ''number''"
| "typeof JInfinity = ''number''"
| "typeof JNegInfinity = ''number''"
| "typeof JUndefined = ''undefined''"
| "typeof JNull = ''object''"
| "typeof (JBoolean _) = ''boolean''"
| "typeof (JString _) = ''string''"
| "typeof (JObject _) = ''object''"
| "typeof (JFunction _) = ''function''"

definition strictEq :: "jsValue \<Rightarrow> jsValue \<Rightarrow> bool" where
  "strictEq a b = (a \<noteq> JNaN \<and> a = b)"

datatype callResult = Returns jsValue | Throws string

type_synonym 'st priorityFunction =
  "passengerContext \<Rightarrow> algorithmContext \<Rightarrow> 'st \<Rightarrow> callResult \<times> 'st"

record ValidationResult =
  isValid :: bool
  errors :: "string list"
  warnings :: "string list"

definition success :: "string list \<Rightarrow> ValidationResult" where
  "success ws = \<lparr> isValid = True, errors = [], warnings = ws \<rparr>"

definition failure :: "string list \<Rightarrow> string list \<Rightarrow> ValidationResult" where
  "failure es ws = \<lparr> isValid = False, errors = es, warnings = ws \<rparr>"

fun sampleLoop ::
  "'st priorityFunction \<Rightarrow> algorithmContext \<Rightarrow> (nat \<Rightarrow> real) \<Rightarrow> nat \<Rightarrow> 'st
     \<Rightarrow> passengerContext list \<Rightarrow> string list \<times> 'st" where
  "sampleLoop f ctx now j st [] = ([], st)"
| "sampleLoop f ctx now j st (p # ps) =
     (case f p ctx st of
        (Throws msg, st') \<Rightarrow> ([''Execution error: '' @ msg], st')
      | (Returns v, st') \<Rightarrow>
          if typeof v \<noteq> ''number''
          then ([''Priority function returned '' @ typeof v @ '', expected number''], st')
          else if v = JNaN then ([''Priority function returned NaN''], st')
          else if v = JInfinity \<or> v = JNegInfinity
          then ([''Priority function returned Infinity''], st')
          else if now (Suc j) - now 0 > 100 then ([''Execution time exceeded limit''], st')
          else sampleLoop f ctx now (Suc j) st' ps)"

fun determinismLoop ::
  "'st priorityFunction \<Rightarrow> algorithmContext \<Rightarrow> 'st \<Rightarrow> passengerContext list
     \<Rightarrow> string + string list" where
  "determinismLoop f ctx st [] = Inr []"
| "determinismLoop f ctx st (p # ps) =
     (case f p ctx st of
        (Throws msg, _) \<Rightarrow> Inl msg
      | (Returns result1, st1) \<Rightarrow>
          (case f p ctx st1 of
             (Throws msg, _) \<Rightarrow> Inl msg
           | (Returns result2, st2) \<Rightarrow>
               if \<not> strictEq result1 result2
               then Inr [''Priority function is not deterministic'']
               else determinismLoop f ctx st2 ps))"

definition validateAlgorithm ::
  "'st priorityFunction option \<Rightarrow> passengerContext list \<Rightarrow> algorithmContext
     \<Rightarrow> (nat \<Rightarrow> real) \<Rightarrow> 'st \<Rightarrow> string + ValidationResult" where
  "validateAlgorithm priorityFn testPassengers ctx now st =
     (case priorityFn of
        None \<Rightarrow> Inr (failure [''Priority must be a function''] [])
      | Some f \<Rightarrow>
          (case sampleLoop f ctx now 0 st testPassengers of
             ([], st1) \<Rightarrow>
               (case determinismLoop f ctx st1
                       (take (min 5 (length testPassengers)) testPassengers) of
                  Inl thrown \<Rightarrow> Inl thrown
                | Inr [] \<Rightarrow> Inr (success [])
                | Inr es \<Rightarrow> Inr (failure es []))
           | (es, _) \<Rightarrow> Inr (failure es [])))"

definition algorithmValidate ::
  "string + 'st priorityFunction \<Rightarrow> passengerContext list \<Rightarrow> algorithmContext
     \<Rightarrow> (nat \<Rightarrow> real) \<Rightarrow> 'st \<Rightarrow> ValidationResult" where
  "algorithmValidate compiled testPassengers ctx now st =
     (case compiled of
        Inl msg \<Rightarrow> failure [msg] []
      | Inr f \<Rightarrow>
          (case validateAlgorithm (Some f) testPassengers ctx now st of
             Inl msg \<Rightarrow> failure [msg] []
           | Inr r \<Rightarrow> r))"

definition badResult :: "callResult \<Rightarrow> bool" where
  "badResult r = (case r of Throws _ \<Rightarrow> True
                  | Returns v \<Rightarrow> typeof v \<noteq> ''number'' \<or> v = JNaN \<or> v = JInfinity \<or> v = JNegInfinity)"

subsection \<open>GeneticOptimizer (GeneticOptimizer.js)\<close>

text \<open>
  \<^verbatim>\<open>_evaluateFitness\<close> calls the priority function on the passenger itself and sorts as
  \<^verbatim>\<open>runAlgorithm\<close> does.  The function is again modelled by the number each call yields.
\<close>

definition orderedIds :: "(passenger \<Rightarrow> jsNumber) \<Rightarrow> passenger list \<Rightarrow> int list" where
  "orderedIds priorityFn passengers =
     (let info = map (\<lambda>p. (pid p, priorityFn p)) passengers
      in map fst (js_sort (\<lambda>a b. comparatorValue (jsMinus (snd b) (snd a))) info))"

text \<open>
  The scenarios that \<^verbatim>\<open>optimize\<close> generates before its first generation, from the rows and
  columns of the optimizer's layout; an exception of \<^verbatim>\<open>generatePassengers\<close> ends \<^verbatim>\<open>optimize\<close>.
\<close>

definition testScenarios :: "aircraft \<Rightarrow> (error + passenger list) list" where
  "testScenarios ac =
     map (\<lambda>i. map_sum id fst
                 (generatePassengers 114 (rows ac) (columns ac) (newRandomGenerator (12345 + i))))
       [0, 1, 2]"

fun collect :: "(error + 'a) list \<Rightarrow> error + 'a list" where
  "collect [] = Inr []"
| "collect (Inl e # rest) = Inl e"
| "collect (Inr x # rest) = (case collect rest of Inl e \<Rightarrow> Inl e | Inr xs \<Rightarrow> Inr (x # xs))"

definition preGenerate :: "aircraft \<Rightarrow> error + passenger list list" where
  "preGenerate ac = collect (testScenarios ac)"

text \<open>
  The loop of \<^verbatim>\<open>_evaluateFitness\<close> over the scenarios.  Every simulation is built on
  \<^verbatim>\<open>this.aircraft\<close>, the one layout of the optimizer, which each run leaves as it ends: the
  layout is threaded through the loop and returned with the total.
\<close>

fun evaluateScenarios ::
  "(passenger \<Rightarrow> jsNumber) \<Rightarrow> passenger list list \<Rightarrow> aircraft \<Rightarrow> int
     \<Rightarrow> error + (int \<times> aircraft)" where
  "evaluateScenarios priorityFn [] ac totalTime = Inr (totalTime, ac)"
| "evaluateScenarios priorityFn (passengers # rest) ac totalTime =
     (case runToCompletion 5000
             (setBoardingOrder (orderedIds priorityFn passengers) (Simulation passengers ac)) of
        Inl e \<Rightarrow> Inl e
      | Inr (n, s) \<Rightarrow> evaluateScenarios priorityFn rest (aircraft s) (totalTime + n))"

text \<open>\<^verbatim>\<open>totalTime / testScenarios.length\<close>; \<open>0 / 0\<close> is \<^verbatim>\<open>NaN\<close>.\<close>

definition evaluateFitness ::
  "('w \<Rightarrow> passenger \<Rightarrow> jsNumber) \<Rightarrow> 'w \<Rightarrow> passenger list list \<Rightarrow> aircraft
     \<Rightarrow> error + (jsNumber \<times> aircraft)" where
  "evaluateFitness createPriorityFn weights scenarios ac =
     (case evaluateScenarios (createPriorityFn weights) scenarios ac 0 of
        Inl e \<Rightarrow> Inl e
      | Inr (totalTime, ac') \<Rightarrow>
          Inr (if scenarios = [] then NaN
               else Finite (real_of_int totalTime / real (length scenarios)), ac'))"

text \<open>
  The evaluated population, pairs of weights and fitness, sorted by
  \<^verbatim>\<open>a.fitness - b.fitness\<close>, and the update of the best solution by its first element.
\<close>

definition sortByFitness :: "('w \<times> jsNumber) list \<Rightarrow> ('w \<times> jsNumber) list" where
  "sortByFitness evaluatedPop =
     js_sort (\<lambda>a b. comparatorValue (jsMinus (snd a) (snd b))) evaluatedPop"

definition updateBest ::
  "('w \<times> jsNumber) option \<Rightarrow> ('w \<times> jsNumber) list \<Rightarrow> error + ('w \<times> jsNumber)" where
  "updateBest bestSolution evaluatedPop =
     (case evaluatedPop of
        [] \<Rightarrow> Inl TypeError
      | lowest # _ \<Rightarrow>
          (case bestSolution of
             None \<Rightarrow> Inr lowest
           | Some best \<Rightarrow> if jsGreater (snd best) (snd lowest) then Inr lowest else Inr best))"

text \<open>
  For comparison, what the specification describes: one scenario evaluated by a new
  simulation on a newly constructed layout of the same configuration.
\<close>

definition freshLayout :: "aircraft \<Rightarrow> aircraft" where
  "freshLayout ac = Aircraft (rows ac) (columns ac) (aislePosition ac) (binCapacityPerRow ac)"

definition freshEvaluation :: "(passenger \<Rightarrow> jsNumber) \<Rightarrow> aircraft \<Rightarrow> passenger list \<Rightarrow> error + int" where
  "freshEvaluation priorityFn ac passengers =
     map_sum id fst
       (runToCompletion 5000
          (setBoardingOrder (orderedIds priorityFn passengers)
             (Simulation passengers (freshLayout ac))))"

subsection \<open>The concrete scenario: one row, two passengers\<close>

definition scenarioP1 :: passenger where
  "scenarioP1 = \<lparr> pid = 1, row = 1, column = ''A'', walkSpeed = NORMAL, carryOnSize = NONE,
                  compliance = NORMAL_COMPLIANCE, groupId = None \<rparr>"

definition scenarioP2 :: passenger where
  "scenarioP2 = \<lparr> pid = 2, row = 1, column = ''D'', walkSpeed = NORMAL, carryOnSize = NONE,
                  compliance = NORMAL_COMPLIANCE, groupId = None \<rparr>"

definition scenarioStart :: sim where
  "scenarioStart =
     setBoardingOrder [1, 2]
       (Simulation [scenarioP1, scenarioP2]
          (Aircraft 1 [''A'', ''B'', ''C'', ''D'', ''E'', ''F''] 3 6))"

subsection \<open>Invariant of the simulator\<close>

text \<open>
  A passenger occupies an aisle cell while its state is WALKING, STOWING, SHUFFLING or
  SEATING.  The invariant: the keys of the run-states are distinct and are the passenger
  ids; every run-state belongs to a passenger of the simulation; a passenger in the aisle
  stands in a cell \<open>\<ge> 0\<close> whose entry in the layout holds that passenger; and a STOWING
  passenger whose row lacks the capacity for its carry-on has a BIN_FULL event in the log.
\<close>

definition inAisle :: "pstate \<Rightarrow> bool" where
  "inAisle ps = (state ps \<noteq> WAITING \<and> state ps \<noteq> SEATED)"

definition binFullLogged :: "sim \<Rightarrow> int \<Rightarrow> bool" where
  "binFullLogged s k = (\<exists>e\<in>set (events s). ev_type e = BIN_FULL \<and> passengerId e = k)"

definition simInv :: "sim \<Rightarrow> bool" where
  "simInv s =
     (distinct (map fst (passengerStates s))
      \<and> (\<forall>k ps. map_of (passengerStates s) k = Some ps \<longrightarrow>
            pid (passenger ps) = k
          \<and> passenger ps \<in> set (originalPassengers s)
          \<and> (inAisle ps \<longrightarrow> 0 \<le> aisleRow ps
                \<and> map_of (aisle (aircraft s)) (aisleRow ps) = Some (Some (passenger ps)))
          \<and> (state ps = STOWING \<and> \<not> hasBinCapacity (aircraft s) (aisleRow ps) (carryOnSize (passenger ps))
                \<longrightarrow> binFullLogged s k)))"

text \<open>
  What processing the passenger under key \<open>k\<close> does to the state: its own run-state is
  rewritten in place, for the same passenger, at most one cell further, never back to
  WAITING; events of this tick and this passenger are appended, none of them ENTER; the
  queue, the tick counter and the completion flag stay as they are.
\<close>

definition effectOf :: "sim \<Rightarrow> int \<Rightarrow> pstate \<Rightarrow> sim \<Rightarrow> bool" where
  "effectOf s k ps s' =
     (\<exists>ps' new.
        passengerStates s' = AList.update k ps' (passengerStates s)
      \<and> passenger ps' = passenger ps
      \<and> aisleRow ps \<le> aisleRow ps' \<and> aisleRow ps' \<le> aisleRow ps + 1
      \<and> state ps' \<noteq> WAITING
      \<and> events s' = events s @ new
      \<and> (\<forall>e\<in>set new. ev_type e \<noteq> ENTER \<and> ev_step e = currentStep s
              \<and> passengerId e = pid (passenger ps))
      \<and> queue s' = queue s
      \<and> currentStep s' = currentStep s
      \<and> isComplete s' = isComplete s
      \<and> originalPassengers s' = originalPassengers s
      \<and> rows (aircraft s') = rows (aircraft s))"

text \<open>
  The queue of a valid boarding order: references to run-states, none twice, each still
  WAITING.
\<close>

definition queueInv :: "sim \<Rightarrow> bool" where
  "queueInv s =
     (\<exists>ks. queue s = map Some ks \<and> distinct ks
        \<and> (\<forall>k\<in>set ks. \<exists>ps. map_of (passengerStates s) k = Some ps \<and> state ps = WAITING))"

subsection \<open>Seats and the shape of the layout\<close>

text \<open>
  The seat of every SEATED passenger holds that passenger in the layout.
\<close>

definition seatedInv :: "sim \<Rightarrow> bool" where
  "seatedInv s =
     (\<forall>k ps. map_of (passengerStates s) k = Some ps \<and> state ps = SEATED \<longrightarrow>
        map_of (seats (aircraft s)) (row (passenger ps), column (passenger ps))
          = Some (Some (passenger ps)))"

text \<open>
  The shape of a layout: its configuration and the keys of its three maps, in order.  A
  layout is in order when its shape is that of a newly constructed layout of its
  configuration.
\<close>

definition shape ::
  "aircraft \<Rightarrow> (int \<times> string list \<times> int \<times> int) \<times> int list \<times> (int \<times> string) list \<times> int list" where
  "shape ac =
     ((rows ac, columns ac, aislePosition ac, binCapacityPerRow ac),
      map fst (binCapacity ac), map fst (seats ac), map fst (aisle ac))"

definition layoutOk :: "aircraft \<Rightarrow> bool" where
  "layoutOk ac = (shape ac = shape (freshLayout ac))"

text \<open>
  What a run keeps besides the invariant: every passenger's seat is a seat of the layout,
  and every queue entry refers to a run-state.
\<close>

definition seatsIn :: "sim \<Rightarrow> bool" where
  "seatsIn s = (\<forall>p\<in>set (originalPassengers s). (row p, column p) \<in> fst ` set (seats (aircraft s)))"

definition queueOk :: "sim \<Rightarrow> bool" where
  "queueOk s = (\<forall>q\<in>set (queue s). \<exists>k. q = Some k \<and> k \<in> fst ` set (passengerStates s))"

definition runInv :: "sim \<Rightarrow> bool" where
  "runInv s = (simInv s \<and> seatsIn s \<and> queueOk s)"

subsection \<open>Forgetting walk speed and compliance\<close>

text \<open>
  Two passengers carry the same boarding data when they agree on id, seat and carry-on
  size.  The erasure overwrites walk speed, compliance and group id with fixed values, in
  a passenger and in every place of a state that holds passengers.
\<close>

definition sameBoardingData :: "passenger \<Rightarrow> passenger \<Rightarrow> bool" where
  "sameBoardingData p p' =
     (pid p = pid p' \<and> row p = row p' \<and> column p = column p' \<and> carryOnSize p = carryOnSize p')"

definition eraseP :: "passenger \<Rightarrow> passenger" where
  "eraseP p = p\<lparr> walkSpeed := NORMAL, compliance := NORMAL_COMPLIANCE, groupId := None \<rparr>"

definition eraseVals :: "('v \<Rightarrow> 'w) \<Rightarrow> ('k \<times> 'v) list \<Rightarrow> ('k \<times> 'w) list" where
  "eraseVals f al = map (\<lambda>kv. (fst kv, f (snd kv))) al"

definition eraseAc :: "aircraft \<Rightarrow> aircraft" where
  "eraseAc ac = ac\<lparr> seats := eraseVals (map_option eraseP) (seats ac),
                     aisle := eraseVals (map_option eraseP) (aisle ac) \<rparr>"

definition erasePs :: "pstate \<Rightarrow> pstate" where
  "erasePs ps = ps\<lparr> passenger := eraseP (passenger ps) \<rparr>"

definition eraseSim :: "sim \<Rightarrow> sim" where
  "eraseSim s = s\<lparr> aircraft := eraseAc (aircraft s),
                    originalPassengers := map eraseP (originalPassengers s),
                    passengerStates := eraseVals erasePs (passengerStates s) \<rparr>"

subsection \<open>Sample inputs\<close>

definition sampleOps :: "layoutOp list" where
  "sampleOps = [OpUseBinCapacity 1 LARGE, OpUseBinCapacity 1 SMALL, OpUseBinCapacity 2 LARGE]"

definition samplePassengers :: "passenger list" where
  "samplePassengers =
     [\<lparr> pid = 1, row = 2, column = ''A'', walkSpeed = SLOW, carryOnSize = SMALL,
         compliance = STRICT, groupId = None \<rparr>,
      \<lparr> pid = 2, row = 5, column = ''C'', walkSpeed = NORMAL, carryOnSize = NONE,
         compliance = NORMAL_COMPLIANCE, groupId = None \<rparr>,
      \<lparr> pid = 3, row = 2, column = ''F'', walkSpeed = FAST, carryOnSize = LARGE,
         compliance = OPPORTUNISTIC, groupId = None \<rparr>]"

definition sampleContext :: algorithmContext where
  "sampleContext = \<lparr> totalRows = 30, totalPassengers = 3,
                      ctx_columns = [''A'', ''B'', ''C'', ''D'', ''E'', ''F''] \<rparr>"

text \<open>A priority function whose result for the second passenger is \<^verbatim>\<open>NaN\<close>.\<close>

definition priorityWithNaN :: "passengerContext \<Rightarrow> algorithmContext \<Rightarrow> jsNumber" where
  "priorityWithNaN p ctx =
     (if pc_id p = 1 then Finite 1 else if pc_id p = 2 then NaN else Finite 2)"

text \<open>One passenger with a small bag, bins without capacity; the tick that ends the stowing.\<close>

definition stowPassenger :: passenger where
  "stowPassenger = \<lparr> pid = 1, row = 1, column = ''A'', walkSpeed = NORMAL, carryOnSize = SMALL,
                     compliance = NORMAL_COMPLIANCE, groupId = None \<rparr>"

definition stowScenario :: sim where
  "stowScenario =
     setBoardingOrder [1]
       (Simulation [stowPassenger] (Aircraft 1 [''A'', ''B'', ''C'', ''D'', ''E'', ''F''] 3 0))"

definition stowTick :: sim where
  "stowTick = (projr (steps 5 stowScenario))\<lparr> currentStep := currentStep (projr (steps 5 stowScenario)) + 1 \<rparr>"

text \<open>The same passenger and tick with the default capacity of six bags per row.\<close>

definition stowScenario6 :: sim where
  "stowScenario6 =
     setBoardingOrder [1]
       (Simulation [stowPassenger] (Aircraft 1 [''A'', ''B'', ''C'', ''D'', ''E'', ''F''] 3 6))"

definition stowTick6 :: sim where
  "stowTick6 = (projr (steps 5 stowScenario6))\<lparr> currentStep := currentStep (projr (steps 5 stowScenario6)) + 1 \<rparr>"

text \<open>The concrete scenario in the middle of its second tick, before the admission.\<close>

definition scenarioTick2 :: sim where
  "scenarioTick2 =
     (projr (steps 1 scenarioStart))\<lparr> currentStep := currentStep (projr (steps 1 scenarioStart)) + 1 \<rparr>"

definition scenarioMid2 :: sim where
  "scenarioMid2 =
     fold (\<lambda>kp. processPassengerInAisle (fst kp)) (getAislePassengersSorted scenarioTick2)
       scenarioTick2"

text \<open>The concrete scenario with other walk speeds, compliance classes and group ids.\<close>

definition slowP1 :: passenger where
  "slowP1 = \<lparr> pid = 1, row = 1, column = ''A'', walkSpeed = SLOW, carryOnSize = NONE,
              compliance = STRICT, groupId = Some 7 \<rparr>"

definition fastP2 :: passenger where
  "fastP2 = \<lparr> pid = 2, row = 1, column = ''D'', walkSpeed = FAST, carryOnSize = NONE,
              compliance = OPPORTUNISTIC, groupId = None \<rparr>"

definition flakyPriority :: "nat priorityFunction" where
  "flakyPriority p ctx calls =
     (if calls < 1 then Returns (JNumber 1) else Throws ''boom'', Suc calls)"

definition nanPriority :: "unit priorityFunction" where
  "nanPriority p ctx st = (if pc_row p = 2 then Returns JNaN else Returns (JNumber 1), st)"

text \<open>Two passengers booked on the same seat, and a layout of one row with two seats.\<close>

definition doubleBooked1 :: passenger where
  "doubleBooked1 = \<lparr> pid = 1, row = 1, column = ''A'', walkSpeed = NORMAL, carryOnSize = NONE,
                     compliance = NORMAL_COMPLIANCE, groupId = None \<rparr>"

definition doubleBooked2 :: passenger where
  "doubleBooked2 = \<lparr> pid = 2, row = 1, column = ''A'', walkSpeed = NORMAL, carryOnSize = NONE,
                     compliance = NORMAL_COMPLIANCE, groupId = None \<rparr>"

definition doubleBookedStart :: sim where
  "doubleBookedStart =
     setBoardingOrder [1, 2]
       (Simulation [doubleBooked1, doubleBooked2]
          (Aircraft 1 [''A'', ''B'', ''C'', ''D'', ''E'', ''F''] 3 6))"

definition twoSeater :: aircraft where
  "twoSeater = Aircraft 1 [''A'', ''B''] 1 6"

section \<open>Verification\<close>

subsection \<open>The building blocks, field by field\<close>

lemma recordEvent_fields [simp]:
  "aircraft (recordEvent t p d s) = aircraft s"
  "passengerStates (recordEvent t p d s) = passengerStates s"
  "queue (recordEvent t p d s) = queue s"
  "isComplete (recordEvent t p d s) = isComplete s"
  "currentStep (recordEvent t p d s) = currentStep s"
  "originalPassengers (recordEvent t p d s) = originalPassengers s"
  "events (recordEvent t p d s) = events s @
          [\<lparr> ev_step = currentStep s, ev_type = t, passengerId = pid p,
             passengerRow = row p, passengerColumn = column p, ev_data = d \<rparr>]"
  by (simp_all add: recordEvent_def)

lemma putState_fields [simp]:
  "aircraft (putState k ps s) = aircraft s"
  "passengerStates (putState k ps s) = AList.update k ps (passengerStates s)"
  "queue (putState k ps s) = queue s"
  "isComplete (putState k ps s) = isComplete s"
  "currentStep (putState k ps s) = currentStep s"
  "originalPassengers (putState k ps s) = originalPassengers s"
  "events (putState k ps s) = events s"
  by (simp_all add: putState_def)

lemma aisle_ops [simp]:
  "map_of (aisle (placeInAisle p r ac)) = (map_of (aisle ac))(r \<mapsto> Some p)"
  "map_of (aisle (removeFromAisle r ac)) = (map_of (aisle ac))(r \<mapsto> None)"
  "aisle (seatPassenger p ac) = aisle ac"
  "aisle (snd (useBinCapacity r sz ac)) = aisle ac"
  by (auto simp: placeInAisle_def removeFromAisle_def seatPassenger_def useBinCapacity_def
      update_conv' split: option.splits)

lemma bin_ops [simp]:
  "binCapacity (placeInAisle p r ac) = binCapacity ac"
  "binCapacity (removeFromAisle r ac) = binCapacity ac"
  "binCapacity (seatPassenger p ac) = binCapacity ac"
  by (simp_all add: placeInAisle_def removeFromAisle_def seatPassenger_def)

lemma useBin_config [simp]:
  "rows (snd (useBinCapacity r sz ac)) = rows ac"
  "binCapacityPerRow (snd (useBinCapacity r sz ac)) = binCapacityPerRow ac"
  by (auto simp: useBinCapacity_def split: option.splits)

lemma rows_ops [simp]:
  "rows (placeInAisle p r ac) = rows ac"
  "rows (removeFromAisle r ac) = rows ac"
  "rows (seatPassenger p ac) = rows ac"
  by (simp_all add: placeInAisle_def removeFromAisle_def seatPassenger_def)

lemma required_pos: "0 < required sz"
  by (simp add: required_def)

lemma hasBin_cong: "binCapacity ac = binCapacity ac' \<Longrightarrow> hasBinCapacity ac r sz = hasBinCapacity ac' r sz"
  by (simp add: hasBinCapacity_def)

lemma hasBin_ops [simp]:
  "hasBinCapacity (placeInAisle p r' ac) r sz = hasBinCapacity ac r sz"
  "hasBinCapacity (removeFromAisle r' ac) r sz = hasBinCapacity ac r sz"
  "hasBinCapacity (seatPassenger p ac) r sz = hasBinCapacity ac r sz"
  by (simp_all add: hasBinCapacity_def)

lemma hasBin_use_other:
  "r \<noteq> r' \<Longrightarrow> hasBinCapacity (snd (useBinCapacity r' sz' ac)) r sz = hasBinCapacity ac r sz"
  by (auto simp: hasBinCapacity_def useBinCapacity_def update_conv' split: option.splits)

subsection \<open>The effect of processing one passenger\<close>

lemma effectOf_processWalking:
  "state ps = WALKING \<Longrightarrow> effectOf s k ps (processWalking k ps s)"
  unfolding effectOf_def processWalking_def startSeating_def Let_def
  by (auto intro!: exI)

lemma effectOf_processStowing:
  "state ps = STOWING \<Longrightarrow> effectOf s k ps (processStowing k ps s)"
  unfolding effectOf_def processStowing_def startSeating_def Let_def
  by (auto intro!: exI)

lemma effectOf_processShuffling:
  "state ps = SHUFFLING \<Longrightarrow> effectOf s k ps (processShuffling k ps s)"
  unfolding effectOf_def processShuffling_def Let_def
  by (auto intro!: exI)

lemma effectOf_processSeating:
  "state ps = SEATING \<Longrightarrow> effectOf s k ps (processSeating k ps s)"
  unfolding effectOf_def processSeating_def Let_def
  by (auto intro!: exI)

lemma process_absent:
  "map_of (passengerStates s) k = None \<Longrightarrow> processPassengerInAisle k s = s"
  by (simp add: processPassengerInAisle_def)

lemma process_idle:
  "map_of (passengerStates s) k = Some ps \<Longrightarrow> state ps = WAITING \<or> state ps = SEATED \<Longrightarrow>
   processPassengerInAisle k s = s"
  by (auto simp: processPassengerInAisle_def)

lemma process_effect:
  assumes "map_of (passengerStates s) k = Some ps" "inAisle ps"
  shows "effectOf s k ps (processPassengerInAisle k s)"
  using assms
  by (cases "state ps")
    (simp_all add: processPassengerInAisle_def inAisle_def effectOf_processWalking
      effectOf_processStowing effectOf_processShuffling effectOf_processSeating)

lemma process_cases:
  obtains "processPassengerInAisle k s = s"
  | ps where "map_of (passengerStates s) k = Some ps" "inAisle ps"
      "effectOf s k ps (processPassengerInAisle k s)"
proof (cases "map_of (passengerStates s) k")
  case None
  then show ?thesis using that(1) process_absent by blast
next
  case (Some ps)
  show ?thesis
  proof (cases "inAisle ps")
    case True
    then show ?thesis using that(2) Some process_effect by blast
  next
    case False
    then show ?thesis using that(1) process_idle [OF Some] by (auto simp: inAisle_def)
  qed
qed

lemma process_frame [simp]:
  "queue (processPassengerInAisle k s) = queue s"
  "currentStep (processPassengerInAisle k s) = currentStep s"
  "isComplete (processPassengerInAisle k s) = isComplete s"
  "originalPassengers (processPassengerInAisle k s) = originalPassengers s"
  "rows (aircraft (processPassengerInAisle k s)) = rows (aircraft s)"
  by (rule process_cases [of k s]; simp add: effectOf_def; blast)+

lemma fold_process_frame [simp]:
  "queue (fold (\<lambda>kp. processPassengerInAisle (fst kp)) kps s) = queue s"
  "currentStep (fold (\<lambda>kp. processPassengerInAisle (fst kp)) kps s) = currentStep s"
  "isComplete (fold (\<lambda>kp. processPassengerInAisle (fst kp)) kps s) = isComplete s"
  "originalPassengers (fold (\<lambda>kp. processPassengerInAisle (fst kp)) kps s) = originalPassengers s"
  "rows (aircraft (fold (\<lambda>kp. processPassengerInAisle (fst kp)) kps s)) = rows (aircraft s)"
  by (induction kps arbitrary: s; simp)+

lemma process_other:
  assumes "k' \<noteq> k"
  shows "map_of (passengerStates (processPassengerInAisle k s)) k' = map_of (passengerStates s) k'"
proof (rule process_cases [of k s])
  assume "processPassengerInAisle k s = s"
  then show ?thesis by simp
next
  fix ps assume "effectOf s k ps (processPassengerInAisle k s)"
  then show ?thesis using assms by (auto simp: effectOf_def update_conv')
qed

lemma process_keys:
  "map fst (passengerStates (processPassengerInAisle k s)) = map fst (passengerStates s)"
proof (rule process_cases [of k s])
  assume "processPassengerInAisle k s = s"
  then show ?thesis by simp
next
  fix ps assume ps: "map_of (passengerStates s) k = Some ps"
    and "effectOf s k ps (processPassengerInAisle k s)"
  then obtain ps' where
    "passengerStates (processPassengerInAisle k s) = AList.update k ps' (passengerStates s)"
    by (auto simp: effectOf_def)
  moreover have "k \<in> fst ` set (passengerStates s)"
    using ps by (meson domI dom_map_of_conv_image_fst [THEN equalityD1, THEN subsetD])
  ultimately show ?thesis by (simp add: update_keys)
qed

lemma process_waiting:
  assumes "map_of (passengerStates s) k' = Some q" "state q = WAITING"
  shows "map_of (passengerStates (processPassengerInAisle k s)) k' = Some q"
proof (cases "k' = k")
  case True
  then show ?thesis using assms process_idle [of s k q] by simp
next
  case False
  then show ?thesis using assms by (simp add: process_other)
qed

lemma process_events:
  "\<exists>new. events (processPassengerInAisle k s) = events s @ new
      \<and> (\<forall>e\<in>set new. ev_type e \<noteq> ENTER)"
proof (rule process_cases [of k s])
  assume "processPassengerInAisle k s = s"
  then show ?thesis by simp
next
  fix ps assume "effectOf s k ps (processPassengerInAisle k s)"
  then show ?thesis unfolding effectOf_def by blast
qed

lemma fold_process_events:
  "\<exists>new. events (fold (\<lambda>kp. processPassengerInAisle (fst kp)) kps s) = events s @ new
      \<and> (\<forall>e\<in>set new. ev_type e \<noteq> ENTER)"
proof (induction kps arbitrary: s)
  case Nil
  then show ?case by simp
next
  case (Cons kp kps)
  obtain n1 where n1: "events (processPassengerInAisle (fst kp) s) = events s @ n1"
      "\<forall>e\<in>set n1. ev_type e \<noteq> ENTER"
    using process_events [of "fst kp" s] by blast
  obtain n2 where n2: "events (fold (\<lambda>kp. processPassengerInAisle (fst kp)) kps
        (processPassengerInAisle (fst kp) s)) = events (processPassengerInAisle (fst kp) s) @ n2"
      "\<forall>e\<in>set n2. ev_type e \<noteq> ENTER"
    using Cons.IH [of "processPassengerInAisle (fst kp) s"] by blast
  show ?case
    by (rule exI [of _ "n1 @ n2"]) (use n1 n2 in auto)
qed

subsection \<open>Frame lemmas of the step\<close>

lemma currentStep_tryAddFromQueue:
  "tryAddFromQueue s = Inr s' \<Longrightarrow> currentStep s' = currentStep s"
  by (auto simp: tryAddFromQueue_def split: list.splits if_splits option.splits)

lemma currentStep_checkCompletion [simp]: "currentStep (checkCompletion s) = currentStep s"
  by (simp add: checkCompletion_def)

lemma currentStep_step:
  "step s = Inr (b, s') \<Longrightarrow> \<not> isComplete s \<Longrightarrow> currentStep s' = currentStep s + 1"
  by (auto simp: step_def Let_def split: sum.splits dest!: currentStep_tryAddFromQueue)

lemma originalPassengers_tryAdd:
  "tryAddFromQueue s = Inr s' \<Longrightarrow> originalPassengers s' = originalPassengers s"
  by (auto simp: tryAddFromQueue_def split: list.splits if_splits option.splits)

lemma originalPassengers_step:
  "step s = Inr (b, s') \<Longrightarrow> originalPassengers s' = originalPassengers s"
  by (auto simp: step_def Let_def checkCompletion_def split: sum.splits if_splits
      dest!: originalPassengers_tryAdd)

lemma originalPassengers_steps:
  "steps n s = Inr s' \<Longrightarrow> originalPassengers s' = originalPassengers s"
proof (induction n arbitrary: s)
  case 0
  then show ?case by simp
next
  case (Suc n)
  from Suc.prems obtain b s1 where s1: "step s = Inr (b, s1)" and rest: "steps n s1 = Inr s'"
    by (auto split: sum.splits)
  show ?case using Suc.IH [OF rest] originalPassengers_step [OF s1] by simp
qed

lemma originalPassengers_init [simp]:
  "originalPassengers (setBoardingOrder order (Simulation ps ac)) = ps"
  by (simp add: setBoardingOrder_def Simulation_def reset_def)

text \<open>The loop of \<^verbatim>\<open>runToCompletion\<close> ends: every step moves the counter towards the bound.\<close>

termination runToCompletion
proof (relation "measure (\<lambda>(maxSteps, s). nat (maxSteps - currentStep s))")
  show "wf (measure (\<lambda>(maxSteps, s). nat (maxSteps - currentStep s)))" by simp
next
  fix maxSteps :: int and s :: sim and x2 x1 s'
  assume "\<not> isComplete s \<and> currentStep s < maxSteps" "step s = Inr x2" "(x1, s') = x2"
  then show "((maxSteps, s'), (maxSteps, s))
               \<in> measure (\<lambda>(maxSteps, s). nat (maxSteps - currentStep s))"
    using currentStep_step [of s x1 s'] by auto
qed

declare runToCompletion.simps [simp del]

subsection \<open>C1: the trace of the concrete scenario\<close>

lemma scenario_tick1:
  "map_sum id (\<lambda>s. (positions s, isComplete s)) (steps 1 scenarioStart)
     = Inr ([(1, WALKING, 0), (2, WAITING, - 1)], False)"
  by code_simp

lemma scenario_tick2:
  "map_sum id (\<lambda>s. (positions s, isComplete s)) (steps 2 scenarioStart)
     = Inr ([(1, WALKING, 1), (2, WALKING, 0)], False)"
  by code_simp

lemma scenario_tick3:
  "map_sum id (\<lambda>s. (positions s, isComplete s)) (steps 3 scenarioStart)
     = Inr ([(1, SEATING, 1), (2, WALKING, 0)], False)"
  by code_simp

lemma scenario_tick4:
  "map_sum id (\<lambda>s. (positions s, isComplete s)) (steps 4 scenarioStart)
     = Inr ([(1, SEATED, 1), (2, WALKING, 1)], False)"
  by code_simp

lemma scenario_tick5:
  "map_sum id (\<lambda>s. (positions s, isComplete s)) (steps 5 scenarioStart)
     = Inr ([(1, SEATED, 1), (2, SEATING, 1)], False)"
  by code_simp

lemma scenario_tick6:
  "map_sum id (\<lambda>s. (positions s, isComplete s)) (steps 6 scenarioStart)
     = Inr ([(1, SEATED, 1), (2, SEATED, 1)], True)"
  by code_simp

lemma scenario_events:
  "map_sum id events (steps 6 scenarioStart) =
     Inr [\<lparr>ev_step = 1, ev_type = ENTER, passengerId = 1, passengerRow = 1,
            passengerColumn = ''A'', ev_data = NoData\<rparr>,
          \<lparr>ev_step = 2, ev_type = MOVE, passengerId = 1, passengerRow = 1,
            passengerColumn = ''A'', ev_data = MoveData 0 1\<rparr>,
          \<lparr>ev_step = 2, ev_type = ENTER, passengerId = 2, passengerRow = 1,
            passengerColumn = ''D'', ev_data = NoData\<rparr>,
          \<lparr>ev_step = 3, ev_type = AISLE_BLOCKED, passengerId = 2, passengerRow = 1,
            passengerColumn = ''D'', ev_data = BlockedData 0 1\<rparr>,
          \<lparr>ev_step = 4, ev_type = SEAT, passengerId = 1, passengerRow = 1,
            passengerColumn = ''A'', ev_data = SeatData 1 ''A''\<rparr>,
          \<lparr>ev_step = 4, ev_type = MOVE, passengerId = 2, passengerRow = 1,
            passengerColumn = ''D'', ev_data = MoveData 0 1\<rparr>,
          \<lparr>ev_step = 6, ev_type = SEAT, passengerId = 2, passengerRow = 1,
            passengerColumn = ''D'', ev_data = SeatData 1 ''D''\<rparr>]"
  by code_simp

lemma scenario_seats:
  "map_sum id (\<lambda>s. filter (\<lambda>kv. snd kv \<noteq> None) (seats (aircraft s))) (steps 6 scenarioStart)
     = Inr [((1, ''A''), Some scenarioP1), ((1, ''D''), Some scenarioP2)]"
  by code_simp

lemma scenario_run:
  "map_sum id fst (runToCompletion 10000 scenarioStart) = Inr 6"
  by code_simp

text \<open>
  C1.  One row, six columns A to F with the aisle at index 3, P1 in seat 1A and P2 in
  seat 1D, both without carry-on, boarding order [P1, P2].  Tick by tick: P1 enters cell 0
  (tick 1); P1 moves to cell 1 and P2 enters (tick 2); P1 begins SEATING and P2 is blocked
  in cell 0 (tick 3); P1 is seated and P2 moves to cell 1 (tick 4); P2 begins SEATING
  (tick 5); P2 is seated (tick 6).  The completion flag is false after ticks 1 to 5 and
  true after tick 6, the event log is exactly the seven events listed, both passengers
  sit in their seats, and the run-to-completion driver returns 6.
\<close>

theorem scenario_trace:
  "map_sum id (\<lambda>s. (positions s, isComplete s)) (steps 1 scenarioStart)
     = Inr ([(1, WALKING, 0), (2, WAITING, - 1)], False)
   \<and> map_sum id (\<lambda>s. (positions s, isComplete s)) (steps 2 scenarioStart)
     = Inr ([(1, WALKING, 1), (2, WALKING, 0)], False)
   \<and> map_sum id (\<lambda>s. (positions s, isComplete s)) (steps 3 scenarioStart)
     = Inr ([(1, SEATING, 1), (2, WALKING, 0)], False)
   \<and> map_sum id (\<lambda>s. (positions s, isComplete s)) (steps 4 scenarioStart)
     = Inr ([(1, SEATED, 1), (2, WALKING, 1)], False)
   \<and> map_sum id (\<lambda>s. (positions s, isComplete s)) (steps 5 scenarioStart)
     = Inr ([(1, SEATED, 1), (2, SEATING, 1)], False)
   \<and> map_sum id (\<lambda>s. (positions s, isComplete s)) (steps 6 scenarioStart)
     = Inr ([(1, SEATED, 1), (2, SEATED, 1)], True)
   \<and> map_sum id events (steps 6 scenarioStart) =
     Inr [\<lparr>ev_step = 1, ev_type = ENTER, passengerId = 1, passengerRow = 1,
            passengerColumn = ''A'', ev_data = NoData\<rparr>,
          \<lparr>ev_step = 2, ev_type = MOVE, passengerId = 1, passengerRow = 1,
            passengerColumn = ''A'', ev_data = MoveData 0 1\<rparr>,
          \<lparr>ev_step = 2, ev_type = ENTER, passengerId = 2, passengerRow = 1,
            passengerColumn = ''D'', ev_data = NoData\<rparr>,
          \<lparr>ev_step = 3, ev_type = AISLE_BLOCKED, passengerId = 2, passengerRow = 1,
            passengerColumn = ''D'', ev_data = BlockedData 0 1\<rparr>,
          \<lparr>ev_step = 4, ev_type = SEAT, passengerId = 1, passengerRow = 1,
            passengerColumn = ''A'', ev_data = SeatData 1 ''A''\<rparr>,
          \<lparr>ev_step = 4, ev_type = MOVE, passengerId = 2, passengerRow = 1,
            passengerColumn = ''D'', ev_data = MoveData 0 1\<rparr>,
          \<lparr>ev_step = 6, ev_type = SEAT, passengerId = 2, passengerRow = 1,
            passengerColumn = ''D'', ev_data = SeatData 1 ''D''\<rparr>]
   \<and> map_sum id (\<lambda>s. filter (\<lambda>kv. snd kv \<noteq> None) (seats (aircraft s))) (steps 6 scenarioStart)
     = Inr [((1, ''A''), Some scenarioP1), ((1, ''D''), Some scenarioP2)]
   \<and> map_sum id fst (runToCompletion 10000 scenarioStart) = Inr 6"
  by (intro conjI) (rule scenario_tick1 scenario_tick2 scenario_tick3 scenario_tick4
      scenario_tick5 scenario_tick6 scenario_events scenario_seats scenario_run)+

subsection \<open>C6: overhead-bin capacity\<close>

lemma map_of_fold_update_const:
  "map_of (fold (\<lambda>r. AList.update r c) rs m) k = (if k \<in> set rs then Some c else map_of m k)"
  by (induction rs arbitrary: m) (auto simp: update_conv')

lemma map_of_resetBins:
  "map_of (resetBins n c m) r = (if 1 \<le> r \<and> r \<le> n then Some c else map_of m r)"
  by (simp add: resetBins_def map_of_fold_update_const)

lemma useBin_le:
  "map_of (binCapacity ac) r = Some c \<Longrightarrow>
   map_of (binCapacity (snd (useBinCapacity r' sz ac))) r = Some c' \<Longrightarrow> c' \<le> c"
  using required_pos [of sz]
  by (auto simp: useBinCapacity_def update_conv' split: if_splits option.splits)

lemma useBin_nonneg:
  "map_of (binCapacity ac) r = Some c \<Longrightarrow> 0 \<le> c \<Longrightarrow>
   map_of (binCapacity (snd (useBinCapacity r' sz ac))) r = Some c' \<Longrightarrow> 0 \<le> c'"
  using required_pos [of sz]
  by (auto simp: useBinCapacity_def update_conv' split: if_splits option.splits)

lemma useBin_dom:
  "map_of (binCapacity (snd (useBinCapacity r' sz ac))) r = None
     \<longleftrightarrow> map_of (binCapacity ac) r = None"
  by (auto simp: useBinCapacity_def update_conv' split: if_splits option.splits)

lemma applyOp_config [simp]:
  "rows (applyOp op ac) = rows ac"
  "binCapacityPerRow (applyOp op ac) = binCapacityPerRow ac"
  by (cases op; simp add: seatPassenger_def placeInAisle_def removeFromAisle_def
        aircraft_reset_def)+

lemma applyOps_config [simp]:
  "rows (applyOps ops ac) = rows ac"
  "binCapacityPerRow (applyOps ops ac) = binCapacityPerRow ac"
  unfolding applyOps_def by (induction ops arbitrary: ac; simp)+

text \<open>
  The invariant of the bins: exactly the rows of the layout have a bin, and its
  capacity lies between zero and the configured one.
\<close>

definition capInv :: "aircraft \<Rightarrow> bool" where
  "capInv ac =
     (\<forall>r. (map_of (binCapacity ac) r = None \<longleftrightarrow> \<not> (1 \<le> r \<and> r \<le> rows ac))
        \<and> (\<forall>c. map_of (binCapacity ac) r = Some c \<longrightarrow> 0 \<le> c \<and> c \<le> binCapacityPerRow ac))"

lemma capInv_Aircraft: "0 \<le> cap \<Longrightarrow> capInv (Aircraft n cols ap cap)"
  by (simp add: capInv_def Aircraft_def map_of_resetBins)

lemma capInv_useBin:
  assumes "capInv ac"
  shows "capInv (snd (useBinCapacity r' sz ac))"
  unfolding capInv_def
proof (intro allI conjI impI)
  fix r
  show "(map_of (binCapacity (snd (useBinCapacity r' sz ac))) r = None) =
        (\<not> (1 \<le> r \<and> r \<le> rows (snd (useBinCapacity r' sz ac))))"
    using assms by (simp add: useBin_dom capInv_def)
next
  fix r c'
  assume c': "map_of (binCapacity (snd (useBinCapacity r' sz ac))) r = Some c'"
  then obtain c where c: "map_of (binCapacity ac) r = Some c"
    using useBin_dom [of r' sz ac r] by (cases "map_of (binCapacity ac) r") auto
  with assms have "0 \<le> c" "c \<le> binCapacityPerRow ac" by (auto simp: capInv_def)
  with c c' useBin_le [OF c c'] useBin_nonneg [OF c _ c']
  show "0 \<le> c'" "c' \<le> binCapacityPerRow (snd (useBinCapacity r' sz ac))" by auto
qed

lemma capInv_reset: "0 \<le> binCapacityPerRow ac \<Longrightarrow> capInv ac \<Longrightarrow> capInv (aircraft_reset ac)"
  by (auto simp: capInv_def aircraft_reset_def map_of_resetBins)

lemma capInv_applyOp: "0 \<le> binCapacityPerRow ac \<Longrightarrow> capInv ac \<Longrightarrow> capInv (applyOp op ac)"
  by (cases op)
    (simp_all add: capInv_useBin capInv_reset,
     simp_all add: capInv_def seatPassenger_def placeInAisle_def removeFromAisle_def)

lemma capInv_applyOps:
  "0 \<le> binCapacityPerRow ac \<Longrightarrow> capInv ac \<Longrightarrow> capInv (applyOps ops ac)"
  unfolding applyOps_def by (induction ops arbitrary: ac) (simp_all add: capInv_applyOp)

lemma applyOp_le:
  "op \<noteq> OpReset \<Longrightarrow> map_of (binCapacity ac) r = Some c \<Longrightarrow>
   map_of (binCapacity (applyOp op ac)) r = Some c' \<Longrightarrow> c' \<le> c"
  by (cases op)
    (auto simp: seatPassenger_def placeInAisle_def removeFromAisle_def dest: useBin_le)

lemma useBin_insufficient:
  "\<not> hasBinCapacity ac r sz \<Longrightarrow> useBinCapacity r sz ac = (False, ac)"
  by (auto simp: hasBinCapacity_def useBinCapacity_def split: option.splits if_splits)

text \<open>
  C6.  Take a layout built with a configured capacity \<open>cap \<ge> 0\<close> and apply any sequence
  of layout operations.  Then exactly the rows 1 to n have a bin; every capacity is at
  least zero (and at most the configured one); no operation other than reset raises the
  capacity of any row; reset puts every row back to the configured capacity; and
  \<^verbatim>\<open>useBinCapacity\<close> on a row without enough capacity returns false and changes nothing.
\<close>

theorem bin_capacity_monotone:
  assumes "0 \<le> cap" and "ac = applyOps ops (Aircraft n cols ap cap)"
  shows "(\<forall>r. (1 \<le> r \<and> r \<le> n) = (\<exists>c. map_of (binCapacity ac) r = Some c))
       \<and> (\<forall>r c. map_of (binCapacity ac) r = Some c \<longrightarrow> 0 \<le> c \<and> c \<le> cap)
       \<and> (\<forall>op r c c'. op \<noteq> OpReset \<and> map_of (binCapacity ac) r = Some c
              \<and> map_of (binCapacity (applyOp op ac)) r = Some c' \<longrightarrow> c' \<le> c)
       \<and> (\<forall>r. 1 \<le> r \<and> r \<le> n \<longrightarrow> map_of (binCapacity (applyOp OpReset ac)) r = Some cap)
       \<and> (\<forall>r sz. \<not> hasBinCapacity ac r sz \<longrightarrow> useBinCapacity r sz ac = (False, ac))"
proof -
  have cfg: "rows ac = n" "binCapacityPerRow ac = cap"
    using assms(2) by (simp_all add: Aircraft_def)
  have inv: "capInv ac"
    using assms capInv_applyOps [of "Aircraft n cols ap cap" ops] capInv_Aircraft [of cap n cols ap]
    by (simp add: Aircraft_def)
  have a: "\<forall>r. (1 \<le> r \<and> r \<le> n) = (\<exists>c. map_of (binCapacity ac) r = Some c)"
  proof
    fix r
    from inv have "(map_of (binCapacity ac) r = None) = (\<not> (1 \<le> r \<and> r \<le> rows ac))"
      by (simp add: capInv_def)
    then show "(1 \<le> r \<and> r \<le> n) = (\<exists>c. map_of (binCapacity ac) r = Some c)"
      by (cases "map_of (binCapacity ac) r") (auto simp: cfg)
  qed
  have b: "\<forall>r c. map_of (binCapacity ac) r = Some c \<longrightarrow> 0 \<le> c \<and> c \<le> cap"
    using inv cfg unfolding capInv_def by blast
  have c: "\<forall>op r c c'. op \<noteq> OpReset \<and> map_of (binCapacity ac) r = Some c
              \<and> map_of (binCapacity (applyOp op ac)) r = Some c' \<longrightarrow> c' \<le> c"
    using applyOp_le by blast
  have d: "\<forall>r. 1 \<le> r \<and> r \<le> n \<longrightarrow> map_of (binCapacity (applyOp OpReset ac)) r = Some cap"
    using cfg by (simp add: aircraft_reset_def map_of_resetBins)
  have e: "\<forall>r sz. \<not> hasBinCapacity ac r sz \<longrightarrow> useBinCapacity r sz ac = (False, ac)"
    using useBin_insufficient by blast
  from a b c d e show ?thesis by blast
qed

lemma sampleOps_bins:
  "binCapacity (applyOps sampleOps (Aircraft 2 [''A''] 1 3)) = [(1, 0), (2, 1)]"
  by code_simp

lemma sampleOps_full: "\<not> hasBinCapacity (applyOps sampleOps (Aircraft 2 [''A''] 1 3)) 1 SMALL"
  by code_simp

theorem bin_capacity_monotone_witness:
  "(0 :: int) \<le> 3
   \<and> binCapacity (applyOps sampleOps (Aircraft 2 [''A''] 1 3)) = [(1, 0), (2, 1)]
   \<and> \<not> hasBinCapacity (applyOps sampleOps (Aircraft 2 [''A''] 1 3)) 1 SMALL
   \<and> useBinCapacity 1 SMALL (applyOps sampleOps (Aircraft 2 [''A''] 1 3))
       = (False, applyOps sampleOps (Aircraft 2 [''A''] 1 3))
   \<and> map_of (binCapacity (applyOp OpReset (applyOps sampleOps (Aircraft 2 [''A''] 1 3)))) 1
       = Some 3"
proof -
  have h: "(0 :: int) \<le> 3" by simp
  note inst = bin_capacity_monotone
    [where cap = 3 and ops = sampleOps and n = 2 and cols = "[''A'']" and ap = 1, OF h refl]
  from inst have u: "useBinCapacity 1 SMALL (applyOps sampleOps (Aircraft 2 [''A''] 1 3))
       = (False, applyOps sampleOps (Aircraft 2 [''A''] 1 3))"
    using sampleOps_full by blast
  from inst have r: "map_of (binCapacity (applyOp OpReset
       (applyOps sampleOps (Aircraft 2 [''A''] 1 3)))) 1 = Some 3"
    by simp
  from h sampleOps_bins sampleOps_full u r show ?thesis by blast
qed

subsection \<open>C4: the random generator\<close>

lemma js_rem_nonneg: "0 \<le> a \<Longrightarrow> 0 < b \<Longrightarrow> js_rem a b = a mod b"
  by (simp add: js_rem_def sgn_if)

lemma dropBits_small: "n < 9007199254740992 \<Longrightarrow> dropBits n = 0"
  by (simp add: dropBits.simps)

lemma roundToDouble_exact: "\<bar>x\<bar> < 9007199254740992 \<Longrightarrow> roundToDouble x = x"
proof -
  assume "\<bar>x\<bar> < 9007199254740992"
  then have "dropBits \<bar>x\<bar> = 0" by (rule dropBits_small)
  then show ?thesis by (simp add: roundToDouble_def Let_def sgn_if)
qed

lemma roundToDouble_nonneg:
  assumes "0 \<le> x"
  shows "0 \<le> roundToDouble x"
proof -
  have "0 \<le> \<bar>x\<bar> div 2 ^ dropBits \<bar>x\<bar>" by (simp add: pos_imp_zdiv_nonneg_iff)
  then have "0 \<le> (if 2 * (\<bar>x\<bar> mod 2 ^ dropBits \<bar>x\<bar>) > 2 ^ dropBits \<bar>x\<bar>
                    \<or> (2 * (\<bar>x\<bar> mod 2 ^ dropBits \<bar>x\<bar>) = 2 ^ dropBits \<bar>x\<bar>
                        \<and> odd (\<bar>x\<bar> div 2 ^ dropBits \<bar>x\<bar>))
                 then \<bar>x\<bar> div 2 ^ dropBits \<bar>x\<bar> + 1 else \<bar>x\<bar> div 2 ^ dropBits \<bar>x\<bar>)
                * 2 ^ dropBits \<bar>x\<bar>"
    by simp
  moreover have "0 \<le> sgn x" using assms by (simp add: sgn_if)
  ultimately show ?thesis unfolding roundToDouble_def Let_def by (rule mult_nonneg_nonneg [rotated])
qed

lemma rng_next_range:
  assumes "0 \<le> seed g"
  shows "0 \<le> fst (rng_next g)" "fst (rng_next g) < 1"
    "0 \<le> seed (snd (rng_next g))" "seed (snd (rng_next g)) < 2147483647"
proof -
  let ?s = "roundToDouble (48271 * seed g) mod 2147483647"
  have "0 \<le> roundToDouble (48271 * seed g)" using assms by (intro roundToDouble_nonneg) simp
  then have r: "js_rem (roundToDouble (48271 * seed g)) 2147483647 = ?s"
    by (intro js_rem_nonneg) simp_all
  have b: "0 \<le> ?s" "?s < 2147483647" by simp_all
  have f: "fst (rng_next g) = real_of_int ?s / 2147483647" "seed (snd (rng_next g)) = ?s"
    by (simp_all add: rng_next_def Let_def r)
  show "0 \<le> fst (rng_next g)" unfolding f using b(1) by simp
  show "fst (rng_next g) < 1" unfolding f using b(2) by simp
  show "0 \<le> seed (snd (rng_next g))" unfolding f using b(1) .
  show "seed (snd (rng_next g)) < 2147483647" unfolding f using b(2) .
qed

lemma initialSeed_next [simp]: "initialSeed (snd (rng_next g)) = initialSeed g"
  by (simp add: rng_next_def Let_def)

lemma initialSeed_draws [simp]: "initialSeed (draws n g) = initialSeed g"
  by (induction n arbitrary: g) simp_all

lemma reset_draws: "rng_reset (draws n (newRandomGenerator sd)) = newRandomGenerator sd"
proof -
  have "initialSeed (draws n (newRandomGenerator sd)) = sd"
    by (simp add: newRandomGenerator_def)
  then show ?thesis
    by (simp add: rng_reset_def newRandomGenerator_def)
qed

lemma big_seed_product: "roundToDouble 59593826624127333 = 59593826624127336"
  by code_simp

text \<open>
  C4 as stated fails for two kinds of seed, and the seed field of the page is parsed with
  \<^verbatim>\<open>parseInt\<close> and not checked.  For a negative seed \<^verbatim>\<open>%\<close> keeps the sign of the dividend:
  from the seed \<open>-1\<close> the generator stores \<open>-48271\<close>, not the residue \<open>2147435376\<close>, and
  \<^verbatim>\<open>next()\<close> returns a negative number.  For a seed whose product with 48271 exceeds
  \<open>2^53\<close> the product is rounded before the remainder is taken: from the seed
  1234567890123 the generator stores 73675250, where the recurrence gives 73675247.
\<close>

theorem rng_seed_counterexample:
  "seed (snd (rng_next (newRandomGenerator (- 1)))) = - 48271
   \<and> (48271 * (- 1)) mod (2 ^ 31 - 1) = (2147435376 :: int)
   \<and> fst (rng_next (newRandomGenerator (- 1))) < 0
   \<and> seed (snd (rng_next (newRandomGenerator 1234567890123))) = 73675250
   \<and> (48271 * 1234567890123) mod (2 ^ 31 - 1) = (73675247 :: int)"
  by (simp add: rng_next_def newRandomGenerator_def js_rem_def Let_def roundToDouble_exact
      big_seed_product)

text \<open>
  C4, amended.  From an integer seed \<open>s \<ge> 0\<close> with \<open>48271 * s < 2^53\<close> the generator
  stores \<open>s' = (48271 * s) mod (2^31 - 1)\<close> and \<^verbatim>\<open>next()\<close> returns \<open>s' / (2^31 - 1)\<close>, a
  number in \<open>[0, 1)\<close>; the stored seed is again in that range, so the recurrence holds
  for every later call.  With the seed 12345 the first call returns
  595905495 / 2147483647, and after any number of calls and a \<^verbatim>\<open>reset()\<close> the next call
  returns what the first call after construction returned.
\<close>

theorem rng_recurrence:
  assumes "0 \<le> seed g" "48271 * seed g < 2 ^ 53"
  shows "seed (snd (rng_next g)) = (48271 * seed g) mod (2 ^ 31 - 1)
       \<and> initialSeed (snd (rng_next g)) = initialSeed g
       \<and> fst (rng_next g) = real_of_int (seed (snd (rng_next g))) / (2 ^ 31 - 1)
       \<and> 0 \<le> fst (rng_next g) \<and> fst (rng_next g) < 1
       \<and> 0 \<le> seed (snd (rng_next g)) \<and> 48271 * seed (snd (rng_next g)) < 2 ^ 53
       \<and> fst (rng_next (newRandomGenerator 12345)) = 595905495 / 2147483647
       \<and> rng_next (rng_reset (draws n (newRandomGenerator sd))) = rng_next (newRandomGenerator sd)
       \<and> fst (rng_next (rng_reset (draws n (newRandomGenerator 12345))))
           = 595905495 / 2147483647"
proof -
  have e: "roundToDouble (48271 * seed g) = 48271 * seed g"
    using assms by (intro roundToDouble_exact) simp
  have a: "seed (snd (rng_next g)) = (48271 * seed g) mod (2 ^ 31 - 1)
       \<and> initialSeed (snd (rng_next g)) = initialSeed g
       \<and> fst (rng_next g) = real_of_int (seed (snd (rng_next g))) / (2 ^ 31 - 1)
       \<and> 0 \<le> fst (rng_next g) \<and> fst (rng_next g) < 1"
    using assms(1) by (simp add: rng_next_def Let_def e js_rem_nonneg)
  have a': "0 \<le> seed (snd (rng_next g)) \<and> 48271 * seed (snd (rng_next g)) < 2 ^ 53"
    using rng_next_range(3,4) [OF assms(1)] by simp
  have b: "fst (rng_next (newRandomGenerator 12345)) = 595905495 / 2147483647"
    by (simp add: rng_next_def newRandomGenerator_def js_rem_def Let_def roundToDouble_exact)
  have c: "rng_next (rng_reset (draws n (newRandomGenerator sd))) = rng_next (newRandomGenerator sd)"
    for sd by (simp only: reset_draws)
  from a a' b c [of sd] c [of 12345] show ?thesis by simp
qed

theorem rng_recurrence_witness:
  "0 \<le> seed (newRandomGenerator 12345)
   \<and> 48271 * seed (newRandomGenerator 12345) < 2 ^ 53
   \<and> seed (snd (rng_next (newRandomGenerator 12345))) = 595905495
   \<and> fst (rng_next (newRandomGenerator 12345)) = 595905495 / 2147483647
   \<and> fst (rng_next (rng_reset (draws 3 (newRandomGenerator 12345)))) = 595905495 / 2147483647"
proof -
  have h: "0 \<le> seed (newRandomGenerator 12345)"
    "48271 * seed (newRandomGenerator 12345) < 2 ^ 53"
    by (simp_all add: newRandomGenerator_def)
  from rng_recurrence [OF h, of 3 12345] h show ?thesis
    by (simp add: newRandomGenerator_def)
qed

subsection \<open>C3: the boarding order\<close>

lemma js_sort_Nil [simp]: "js_sort cmp [] = []"
  by (simp add: js_sort_def)

lemma js_sort_Cons [simp]: "js_sort cmp (x # xs) = js_insert cmp x (js_sort cmp xs)"
  by (simp add: js_sort_def)

lemma set_js_insert [simp]: "set (js_insert cmp x ys) = insert x (set ys)"
  by (induction ys) auto

lemma set_js_sort [simp]: "set (js_sort cmp xs) = set xs"
  by (induction xs) simp_all

lemma length_js_insert [simp]: "length (js_insert cmp x ys) = Suc (length ys)"
  by (induction ys) auto

lemma length_js_sort [simp]: "length (js_sort cmp xs) = length xs"
  by (induction xs) simp_all

lemma distinct_js_insert: "distinct (js_insert cmp x ys) = (x \<notin> set ys \<and> distinct ys)"
  by (induction ys) auto

lemma distinct_js_sort [simp]: "distinct (js_sort cmp xs) = distinct xs"
  by (induction xs) (simp_all add: distinct_js_insert)

lemma js_insert_map:
  assumes "\<And>a b. cmp (f a) (f b) = cmp' a b"
  shows "js_insert cmp (f x) (map f ys) = map f (js_insert cmp' x ys)"
  by (induction ys) (simp_all add: assms)

lemma js_sort_map:
  assumes "\<And>a b. cmp (f a) (f b) = cmp' a b"
  shows "js_sort cmp (map f xs) = map f (js_sort cmp' xs)"
  by (induction xs) (simp_all add: js_insert_map [of cmp f cmp', OF assms])

text \<open>On the pairs \<open>(id, priority)\<close> that \<^verbatim>\<open>runAlgorithm\<close> sorts.\<close>

definition boardsBefore :: "(int \<times> real) \<Rightarrow> (int \<times> real) \<Rightarrow> bool" where
  "boardsBefore a b = (snd a > snd b \<or> (snd a = snd b \<and> fst a < fst b))"

lemma boardsBefore_insert:
  "sorted_wrt boardsBefore ys \<Longrightarrow> \<forall>y\<in>set ys. fst x < fst y \<Longrightarrow>
   sorted_wrt boardsBefore (js_insert (\<lambda>a b. snd b - snd a) x ys)"
proof (induction ys)
  case Nil
  then show ?case by simp
next
  case (Cons y ys)
  show ?case
  proof (cases "snd y - snd x \<le> 0")
    case True
    have "boardsBefore x z" if "z \<in> set (y # ys)" for z
    proof -
      have "snd z \<le> snd y" using that Cons.prems(1) by (auto simp: boardsBefore_def)
      moreover have "fst x < fst z" using that Cons.prems(2) by auto
      ultimately show ?thesis using True by (auto simp: boardsBefore_def)
    qed
    then show ?thesis using True Cons.prems(1) by simp
  next
    case False
    then have "boardsBefore y x" by (simp add: boardsBefore_def)
    then show ?thesis using False Cons by auto
  qed
qed

lemma boardsBefore_sort:
  "sorted_wrt (<) (map fst xs) \<Longrightarrow>
   sorted_wrt boardsBefore (js_sort (\<lambda>a b. snd b - snd a) xs)"
proof (induction xs)
  case Nil
  then show ?case by simp
next
  case (Cons x xs)
  then have "\<forall>y\<in>set (js_sort (\<lambda>a b. snd b - snd a) xs). fst x < fst y" by auto
  with Cons show ?case
    using boardsBefore_insert [of "js_sort (\<lambda>a b. snd b - snd a) xs" x]
    by simp
qed

lemma sorted_wrt_unique:
  assumes asym: "\<And>a b. R a b \<Longrightarrow> \<not> R b a"
  shows "sorted_wrt R xs \<Longrightarrow> sorted_wrt R ys \<Longrightarrow> set xs = set ys \<Longrightarrow> xs = ys"
proof (induction xs arbitrary: ys)
  case Nil
  then show ?case by simp
next
  case (Cons x xs)
  then obtain y ys' where ys: "ys = y # ys'" by (cases ys) auto
  have irrefl: "\<not> R a a" for a using asym by blast
  have xy: "x = y"
  proof (rule ccontr)
    assume "x \<noteq> y"
    then have "x \<in> set ys'" "y \<in> set xs" using Cons.prems(3) ys by auto
    then have "R y x" "R x y" using Cons.prems(1,2) ys by auto
    then show False using asym by blast
  qed
  have "x \<notin> set xs" "y \<notin> set ys'" using Cons.prems(1,2) ys irrefl by auto
  then have "set xs = set ys'" using Cons.prems(3) ys xy by auto
  then show ?case using Cons ys xy by auto
qed

lemma jsGreater_asym: "jsGreater a b \<Longrightarrow> \<not> jsGreater b a"
  by (cases a; cases b) simp_all

lemma jsGreater_irrefl: "\<not> jsGreater a a"
  by (cases a) simp_all

lemma boardsEarlier_asym:
  assumes "boardsEarlier prio i j"
  shows "\<not> boardsEarlier prio j i"
proof (cases "jsGreater (prio i) (prio j)")
  case True
  then have "\<not> jsGreater (prio j) (prio i)" by (rule jsGreater_asym)
  moreover have "prio j \<noteq> prio i"
  proof
    assume "prio j = prio i"
    then have "jsGreater (prio i) (prio i)" using True by simp
    then show False by (simp add: jsGreater_irrefl)
  qed
  ultimately show ?thesis by (simp add: boardsEarlier_def jsEquals_def)
next
  case False
  then have e: "prio i = prio j" and l: "i < j"
    using assms by (simp_all add: boardsEarlier_def jsEquals_def)
  have "\<not> jsGreater (prio j) (prio i)" unfolding e by (rule jsGreater_irrefl)
  then show ?thesis using l by (simp add: boardsEarlier_def)
qed

text \<open>
  C3 as stated fails for a priority function that returns \<^verbatim>\<open>NaN\<close>, and \<^verbatim>\<open>runAlgorithm\<close>
  sorts whatever the function returns.  With the priorities 1, \<^verbatim>\<open>NaN\<close>, 2 for the ids 1,
  2, 3 every comparison with the second passenger gives \<^verbatim>\<open>NaN\<close>, which the sort takes for
  equal, and the order comes out as \<open>[1, 2, 3]\<close>: passenger 3 with the higher priority 2
  boards after passenger 1 with priority 1.
\<close>

lemma nan_order: "runAlgorithm priorityWithNaN samplePassengers sampleContext = [1, 2, 3]"
  by (simp add: runAlgorithm_def priorityWithNaN_def samplePassengers_def toContext_def)

lemma nan_priorities:
  "map (\<lambda>p. priorityWithNaN (toContext p) sampleContext) samplePassengers
     = [Finite 1, NaN, Finite 2]"
  by (simp add: priorityWithNaN_def samplePassengers_def toContext_def)



lemma sample_ids: "map pid samplePassengers = [1..int (length samplePassengers)]"
  by code_simp

lemma sample_finite:
  "\<forall>p\<in>set samplePassengers. \<exists>v. backToFrontPriority (toContext p) sampleContext = Finite v"
  by (simp add: backToFrontPriority_def)

lemma sample_order: "runAlgorithm backToFrontPriority samplePassengers sampleContext = [2, 1, 3]"
  by (simp add: runAlgorithm_def backToFrontPriority_def samplePassengers_def toContext_def)


subsection \<open>The invariant holds in every reachable state\<close>

lemma binFullLogged_recordEvent:
  "binFullLogged (recordEvent t p d s) k = (binFullLogged s k \<or> (t = BIN_FULL \<and> pid p = k))"
  by (auto simp: binFullLogged_def)

lemma binFullLogged_frame [simp]:
  "binFullLogged (putState k' ps s) k = binFullLogged s k"
  "binFullLogged (s\<lparr> aircraft := ac \<rparr>) k = binFullLogged s k"
  "binFullLogged (s\<lparr> queue := qu \<rparr>) k = binFullLogged s k"
  "binFullLogged (s\<lparr> currentStep := n \<rparr>) k = binFullLogged s k"
  "binFullLogged (s\<lparr> isComplete := b \<rparr>) k = binFullLogged s k"
  by (simp_all add: binFullLogged_def)

lemma simInvD:
  assumes "simInv s" "map_of (passengerStates s) k = Some ps"
  shows "pid (passenger ps) = k"
    and "inAisle ps \<Longrightarrow> 0 \<le> aisleRow ps"
    and "inAisle ps \<Longrightarrow> map_of (aisle (aircraft s)) (aisleRow ps) = Some (Some (passenger ps))"
    and "state ps = STOWING \<Longrightarrow>
         \<not> hasBinCapacity (aircraft s) (aisleRow ps) (carryOnSize (passenger ps)) \<Longrightarrow>
         binFullLogged s k"
    and "passenger ps \<in> set (originalPassengers s)"
  using assms unfolding simInv_def by blast+

lemma simInv_unique:
  assumes inv: "simInv s"
    and k: "map_of (passengerStates s) k = Some ps" and k': "map_of (passengerStates s) k' = Some ps'"
    and a: "inAisle ps" "inAisle ps'" and eq: "aisleRow ps = aisleRow ps'"
  shows "k = k'"
proof -
  have "map_of (aisle (aircraft s)) (aisleRow ps) = Some (Some (passenger ps))"
    using simInvD(3) [OF inv k] a by simp
  moreover have "map_of (aisle (aircraft s)) (aisleRow ps) = Some (Some (passenger ps'))"
    using simInvD(3) [OF inv k'] a eq by simp
  ultimately have "passenger ps = passenger ps'" by simp
  then show ?thesis using simInvD(1) [OF inv k] simInvD(1) [OF inv k'] by simp
qed

lemma simInv_not_free:
  assumes inv: "simInv s" and k: "map_of (passengerStates s) k = Some ps" and a: "inAisle ps"
    and free: "\<not> isAisleOccupied (aircraft s) r"
  shows "aisleRow ps \<noteq> r"
  using simInvD(3) [OF inv k a] free by (auto simp: isAisleOccupied_def)

lemma simInv_generic:
  assumes inv: "simInv s" and cur: "map_of (passengerStates s) k = Some ps"
    and PS: "passengerStates s' = AList.update k ps' (passengerStates s)"
    and pass: "passenger ps' = passenger ps"
    and self_aisle: "inAisle ps' \<Longrightarrow> 0 \<le> aisleRow ps'
        \<and> map_of (aisle (aircraft s')) (aisleRow ps') = Some (Some (passenger ps))"
    and self_bin: "state ps' = STOWING \<Longrightarrow>
        \<not> hasBinCapacity (aircraft s') (aisleRow ps') (carryOnSize (passenger ps)) \<Longrightarrow>
        binFullLogged s' k"
    and others_aisle: "\<And>k' q. k' \<noteq> k \<Longrightarrow> map_of (passengerStates s) k' = Some q \<Longrightarrow> inAisle q \<Longrightarrow>
        map_of (aisle (aircraft s')) (aisleRow q) = map_of (aisle (aircraft s)) (aisleRow q)"
    and others_bin: "\<And>k' q. k' \<noteq> k \<Longrightarrow> map_of (passengerStates s) k' = Some q \<Longrightarrow> state q = STOWING \<Longrightarrow>
        hasBinCapacity (aircraft s') (aisleRow q) (carryOnSize (passenger q))
          = hasBinCapacity (aircraft s) (aisleRow q) (carryOnSize (passenger q))"
    and ev: "set (events s) \<subseteq> set (events s')"
    and orig: "originalPassengers s' = originalPassengers s"
  shows "simInv s'"
  unfolding simInv_def
proof (intro conjI allI impI)
  show "distinct (map fst (passengerStates s'))"
    using inv by (simp add: PS distinct_update simInv_def)
next
  fix k' q assume q: "map_of (passengerStates s') k' = Some q"
  show "pid (passenger q) = k'"
  proof (cases "k' = k")
    case True
    then show ?thesis using q pass simInvD(1) [OF inv cur] by (auto simp: PS update_conv')
  next
    case False
    then show ?thesis using q simInvD(1) [OF inv, of k' q] by (simp add: PS update_conv')
  qed
next
  fix k' q assume q: "map_of (passengerStates s') k' = Some q"
  show "passenger q \<in> set (originalPassengers s')"
  proof (cases "k' = k")
    case True
    then show ?thesis using q pass simInvD(5) [OF inv cur] by (auto simp: PS update_conv' orig)
  next
    case False
    then show ?thesis using q simInvD(5) [OF inv, of k' q] by (simp add: PS update_conv' orig)
  qed
next
  fix k' q assume q: "map_of (passengerStates s') k' = Some q" and a: "inAisle q"
  show "0 \<le> aisleRow q"
  proof (cases "k' = k")
    case True
    then show ?thesis using q a self_aisle by (simp add: PS update_conv')
  next
    case False
    then show ?thesis using q a simInvD(2) [OF inv, of k' q] by (simp add: PS update_conv')
  qed
next
  fix k' q assume q: "map_of (passengerStates s') k' = Some q" and a: "inAisle q"
  show "map_of (aisle (aircraft s')) (aisleRow q) = Some (Some (passenger q))"
  proof (cases "k' = k")
    case True
    then show ?thesis using q a pass self_aisle by (auto simp: PS update_conv')
  next
    case False
    then have q0: "map_of (passengerStates s) k' = Some q" using q by (simp add: PS update_conv')
    show ?thesis using others_aisle [OF False q0 a] simInvD(3) [OF inv q0 a] by simp
  qed
next
  fix k' q assume q: "map_of (passengerStates s') k' = Some q"
    and st: "state q = STOWING \<and> \<not> hasBinCapacity (aircraft s') (aisleRow q) (carryOnSize (passenger q))"
  show "binFullLogged s' k'"
  proof (cases "k' = k")
    case True
    then show ?thesis using q st pass self_bin by (auto simp: PS update_conv')
  next
    case False
    then have q0: "map_of (passengerStates s) k' = Some q" using q by (simp add: PS update_conv')
    have "binFullLogged s k'"
      using others_bin [OF False q0] simInvD(4) [OF inv q0] st by simp
    then show ?thesis using ev by (auto simp: binFullLogged_def)
  qed
qed

lemma simInv_processWalking:
  assumes inv: "simInv s" and cur: "map_of (passengerStates s) k = Some ps" and st: "state ps = WALKING"
  shows "simInv (processWalking k ps s)"
proof -
  have a: "inAisle ps" using st by (simp add: inAisle_def)
  note own = simInvD [OF inv cur]
  show ?thesis
  proof (cases "aisleRow ps = row (passenger ps)")
    case True
    show ?thesis
    proof (cases "carryOnSize (passenger ps) \<noteq> NONE")
      case stow: True
      show ?thesis
        unfolding processWalking_def Let_def
        using True stow own a st
        by (auto intro!: simInv_generic [OF inv cur] simp: binFullLogged_recordEvent inAisle_def)
    next
      case False
      show ?thesis
        unfolding processWalking_def startSeating_def Let_def
        using True False own a st
        by (auto intro!: simInv_generic [OF inv cur] simp: binFullLogged_recordEvent inAisle_def)
    qed
  next
    case False
    show ?thesis
    proof (cases "aisleRow ps + 1 \<le> rows (aircraft s) \<and> \<not> isAisleOccupied (aircraft s) (aisleRow ps + 1)")
      case move: True
      have o: "aisleRow q \<noteq> aisleRow ps \<and> aisleRow q \<noteq> aisleRow ps + 1"
        if "k' \<noteq> k" "map_of (passengerStates s) k' = Some q" "inAisle q" for k' q
        using simInv_unique [OF inv cur that(2) a that(3)] that(1)
          simInv_not_free [OF inv that(2,3), of "aisleRow ps + 1"] move by auto
      show ?thesis
        unfolding processWalking_def Let_def
        using False move own a o st
        by (auto intro!: simInv_generic [OF inv cur] simp: inAisle_def)
    next
      case blocked: False
      show ?thesis
        unfolding processWalking_def Let_def
        using False blocked own a st
        by (auto intro!: simInv_generic [OF inv cur] simp: inAisle_def)
    qed
  qed
qed

lemma simInv_processStowing:
  assumes inv: "simInv s" and cur: "map_of (passengerStates s) k = Some ps" and st: "state ps = STOWING"
  shows "simInv (processStowing k ps s)"
proof -
  have a: "inAisle ps" using st by (simp add: inAisle_def)
  note own = simInvD [OF inv cur]
  show ?thesis
  proof (cases "stowRemaining ps - 1 \<le> 0")
    case True
    have o: "aisleRow q \<noteq> aisleRow ps"
      if "k' \<noteq> k" "map_of (passengerStates s) k' = Some q" "state q = STOWING" for k' q
      using simInv_unique [OF inv cur that(2) a] that(1,3) by (auto simp: inAisle_def)
    show ?thesis
      unfolding processStowing_def startSeating_def Let_def
      using True own a o st
      by (auto intro!: simInv_generic [OF inv cur] simp: inAisle_def hasBin_use_other)
  next
    case False
    show ?thesis
      unfolding processStowing_def Let_def
      using False own a st
      by (auto intro!: simInv_generic [OF inv cur] simp: inAisle_def)
  qed
qed

lemma simInv_processShuffling:
  assumes inv: "simInv s" and cur: "map_of (passengerStates s) k = Some ps" and st: "state ps = SHUFFLING"
  shows "simInv (processShuffling k ps s)"
proof -
  have a: "inAisle ps" using st by (simp add: inAisle_def)
  note own = simInvD [OF inv cur]
  show ?thesis
    unfolding processShuffling_def Let_def
    using own a st
    by (auto intro!: simInv_generic [OF inv cur] simp: inAisle_def)
qed

lemma simInv_processSeating:
  assumes inv: "simInv s" and cur: "map_of (passengerStates s) k = Some ps" and st: "state ps = SEATING"
  shows "simInv (processSeating k ps s)"
proof -
  have a: "inAisle ps" using st by (simp add: inAisle_def)
  note own = simInvD [OF inv cur]
  have o: "aisleRow q \<noteq> aisleRow ps"
    if "k' \<noteq> k" "map_of (passengerStates s) k' = Some q" "inAisle q" for k' q
    using simInv_unique [OF inv cur that(2) a that(3)] that(1) by auto
  show ?thesis
    unfolding processSeating_def Let_def
    using own a st o
    by (auto intro!: simInv_generic [OF inv cur] simp: inAisle_def)
qed

lemma simInv_processPassengerInAisle: "simInv s \<Longrightarrow> simInv (processPassengerInAisle k s)"
  by (auto simp: processPassengerInAisle_def simInv_processWalking simInv_processStowing
      simInv_processShuffling simInv_processSeating split: option.splits PassengerState.splits)

lemma simInv_fold_process:
  "simInv s \<Longrightarrow> simInv (fold (\<lambda>kp. processPassengerInAisle (fst kp)) kps s)"
  by (induction kps arbitrary: s) (simp_all add: simInv_processPassengerInAisle)

lemma simInv_tryAddFromQueue:
  assumes inv: "simInv s" and r: "tryAddFromQueue s = Inr s'"
  shows "simInv s'"
proof (cases "queue s")
  case Nil
  then show ?thesis using r inv by (simp add: tryAddFromQueue_def)
next
  case (Cons q rest)
  show ?thesis
  proof (cases "isAisleOccupied (aircraft s) 0")
    case True
    then show ?thesis using r inv Cons by (simp add: tryAddFromQueue_def)
  next
    case free: False
    from r Cons free obtain k ps where q: "q = Some k" and cur: "map_of (passengerStates s) k = Some ps"
      and s': "s' = recordEvent ENTER (passenger ps) NoData
                 (putState k (ps\<lparr> state := WALKING, aisleRow := 0, enteredAt := currentStep s \<rparr>)
                    (s\<lparr> queue := rest, aircraft := placeInAisle (passenger ps) 0 (aircraft s) \<rparr>))"
      by (auto simp: tryAddFromQueue_def split: option.splits)
    have o: "aisleRow q' \<noteq> 0"
      if "map_of (passengerStates s) k' = Some q'" "inAisle q'" for k' q'
      using simInv_not_free [OF inv that free] .
    show ?thesis
      unfolding s' using o
      by (auto intro!: simInv_generic [OF inv cur] simp: inAisle_def)
  qed
qed

lemma simInv_checkCompletion: "simInv s \<Longrightarrow> simInv (checkCompletion s)"
  by (simp add: checkCompletion_def simInv_def)

lemma simInv_tick: "simInv s \<Longrightarrow> simInv (s\<lparr> currentStep := n \<rparr>)"
  by (simp add: simInv_def)

lemma simInv_step:
  assumes "simInv s" "step s = Inr (b, s')"
  shows "simInv s'"
proof (cases "isComplete s")
  case True
  then show ?thesis using assms by (simp add: step_def)
next
  case False
  let ?s1 = "s\<lparr> currentStep := currentStep s + 1 \<rparr>"
  let ?s2 = "fold (\<lambda>kp. processPassengerInAisle (fst kp)) (getAislePassengersSorted ?s1) ?s1"
  from assms(2) False obtain s3 where s3: "tryAddFromQueue ?s2 = Inr s3" and s': "s' = checkCompletion s3"
    by (auto simp: step_def Let_def split: sum.splits)
  have "simInv ?s2" using assms(1) by (intro simInv_fold_process simInv_tick)
  then have "simInv s3" using s3 by (rule simInv_tryAddFromQueue)
  then show ?thesis unfolding s' by (rule simInv_checkCompletion)
qed

lemma simInv_steps: "simInv s \<Longrightarrow> steps n s = Inr s' \<Longrightarrow> simInv s'"
proof (induction n arbitrary: s)
  case 0
  then show ?case by simp
next
  case (Suc n)
  from Suc.prems(2) obtain b s1 where s1: "step s = Inr (b, s1)" and rest: "steps n s1 = Inr s'"
    by (auto split: sum.splits)
  from Suc.prems(1) s1 have "simInv s1" by (rule simInv_step)
  then show ?case using rest by (rule Suc.IH)
qed

lemma initial_states:
  "map_of (fold (\<lambda>p. AList.update (pid p) (initialState p)) ps m) k = Some q \<Longrightarrow>
   (\<exists>p\<in>set ps. q = initialState p \<and> pid p = k) \<or> map_of m k = Some q"
proof (induction ps arbitrary: m)
  case Nil
  then show ?case by simp
next
  case (Cons a ps)
  from Cons.IH [of "AList.update (pid a) (initialState a) m"] Cons.prems
  have "(\<exists>p\<in>set ps. q = initialState p \<and> pid p = k)
        \<or> map_of (AList.update (pid a) (initialState a) m) k = Some q"
    by simp
  then show ?case by (auto simp: update_conv' split: if_splits)
qed

lemma distinct_fold_update:
  "distinct (map fst m) \<Longrightarrow> distinct (map fst (fold (\<lambda>p. AList.update (f p) (g p)) ps m))"
  by (induction ps arbitrary: m) (simp_all add: distinct_update)

lemma simInv_Simulation: "simInv (setBoardingOrder order (Simulation ps ac))"
proof -
  have "map_of (passengerStates (setBoardingOrder order (Simulation ps ac))) k = Some q \<Longrightarrow>
        pid (passenger q) = k \<and> state q = WAITING \<and> passenger q \<in> set ps" for k q
    using initial_states [of ps "[]" k q]
    by (auto simp: setBoardingOrder_def Simulation_def reset_def initialState_def)
  moreover have "distinct (map fst (passengerStates (setBoardingOrder order (Simulation ps ac))))"
    by (simp add: setBoardingOrder_def Simulation_def reset_def distinct_fold_update)
  moreover have "originalPassengers (setBoardingOrder order (Simulation ps ac)) = ps"
    by (simp add: setBoardingOrder_def Simulation_def reset_def)
  ultimately show ?thesis unfolding simInv_def inAisle_def by fastforce
qed

subsection \<open>The passengers that generatePassengers produces\<close>

lemma nextInt_range:
  assumes g: "0 \<le> seed g" and le: "lo \<le> hi" and n: "nextInt lo hi g = (j, g')"
  shows "lo \<le> j" "j \<le> hi" "0 \<le> seed g'"
proof -
  obtain v g1 where v: "rng_next g = (v, g1)" by (cases "rng_next g")
  from rng_next_range [OF g] v have r: "0 \<le> v" "v < 1" "0 \<le> seed g1" by simp_all
  from n v have j: "j = \<lfloor>v * real_of_int (hi - lo + 1)\<rfloor> + lo" and g': "g' = g1"
    by (simp_all add: nextInt_def)
  have pos: "0 < real_of_int (hi - lo + 1)" using le by simp
  have "0 \<le> v * real_of_int (hi - lo + 1)" using r(1) pos by simp
  then have a: "0 \<le> \<lfloor>v * real_of_int (hi - lo + 1)\<rfloor>" by simp
  have "v * real_of_int (hi - lo + 1) < 1 * real_of_int (hi - lo + 1)"
    using r(2) pos by (intro mult_strict_right_mono) simp_all
  then have "v * real_of_int (hi - lo + 1) < real_of_int (hi - lo + 1)" by simp
  then have b: "\<lfloor>v * real_of_int (hi - lo + 1)\<rfloor> < hi - lo + 1" by (simp only: floor_less_iff)
  show "lo \<le> j" using a j by simp
  show "j \<le> hi" using b j by simp
  show "0 \<le> seed g'" using r(3) g' by simp
qed

lemma pick_some:
  assumes g: "0 \<le> seed g" and xs: "xs \<noteq> []"
  shows "\<exists>x g'. pick xs g = (Some x, g') \<and> x \<in> set xs \<and> 0 \<le> seed g'"
proof -
  obtain j g' where n: "nextInt 0 (int (length xs) - 1) g = (j, g')"
    by (cases "nextInt 0 (int (length xs) - 1) g")
  have le: "0 \<le> int (length xs) - 1" using xs by (cases xs) simp_all
  note r = nextInt_range [OF g le n]
  have "pick xs g = (Some (xs ! nat j), g')" using n r by (simp add: pick_def)
  moreover have "xs ! nat j \<in> set xs" using r by (intro nth_mem) simp
  ultimately show ?thesis using r(3) by blast
qed

lemma arrayGet_in:
  assumes "props a = []" "0 \<le> j" "j < int (length (elems a))"
  shows "arrayGet a j \<in> set (elems a)"
  using assms by (simp add: arrayGet_def)

lemma arraySet_in:
  assumes "0 \<le> j" "j < int (length (elems a))"
  shows "props (arraySet a j v) = props a"
    and "length (elems (arraySet a j v)) = length (elems a)"
    and "set (elems (arraySet a j v)) \<subseteq> insert v (set (elems a))"
  using assms by (simp_all add: arraySet_def set_update_subset_insert)

lemma shuffleLoop_inv:
  assumes "0 \<le> seed g" "props a = []" "set (elems a) \<subseteq> A"
    and "i < length (elems a) \<or> i = 0" "shuffleLoop i a g = (a', g')"
  shows "props a' = [] \<and> length (elems a') = length (elems a) \<and> set (elems a') \<subseteq> A
         \<and> 0 \<le> seed g'"
  using assms
proof (induction i arbitrary: a g)
  case 0
  then show ?case by simp
next
  case (Suc i)
  obtain j g1 where n: "nextInt 0 (int (Suc i)) g = (j, g1)"
    by (cases "nextInt 0 (int (Suc i)) g")
  have le: "(0::int) \<le> int (Suc i)" by simp
  note r = nextInt_range [OF Suc.prems(1) le n]
  have i: "Suc i < length (elems a)" using Suc.prems(4) by simp
  let ?ai = "arrayGet a (int (Suc i))" and ?aj = "arrayGet a j"
  let ?a1 = "arraySet a (int (Suc i)) ?aj"
  let ?a2 = "arraySet ?a1 j ?ai"
  have ji: "j < int (length (elems a))" using r(2) i by simp
  have ai: "?ai \<in> A" using arrayGet_in [OF Suc.prems(2), of "int (Suc i)"] i Suc.prems(3) by auto
  have aj: "?aj \<in> A" using arrayGet_in [OF Suc.prems(2) r(1) ji] Suc.prems(3) by auto
  have s1: "props ?a1 = []" "length (elems ?a1) = length (elems a)" "set (elems ?a1) \<subseteq> A"
    using arraySet_in [of "int (Suc i)" a ?aj] i Suc.prems(2,3) aj by auto
  have j1: "j < int (length (elems ?a1))" using ji s1(2) by simp
  have s2: "props ?a2 = []" "length (elems ?a2) = length (elems a)" "set (elems ?a2) \<subseteq> A"
    using arraySet_in [OF r(1) j1, of ?ai] s1 ai by auto
  have rec: "shuffleLoop i ?a2 g1 = (a', g')"
    using Suc.prems(5) n by (simp add: Let_def)
  have "i < length (elems ?a2) \<or> i = 0" using i s2(2) by simp
  from Suc.IH [OF r(3) s2(1) s2(3) this rec] show ?case using s2(2) by simp
qed

lemma shuffle_inv:
  assumes "0 \<le> seed g" "shuffle (arrayOf xs) g = (a', g')"
  shows "length (elems a') = length xs \<and> set (elems a') \<subseteq> Some ` set xs \<and> 0 \<le> seed g'"
proof -
  have l: "length (elems (arrayOf xs)) - 1 < length (elems (arrayOf xs))
           \<or> length (elems (arrayOf xs)) - 1 = 0"
    by (cases xs) (simp_all add: arrayOf_def)
  have "set (elems (arrayOf xs)) \<subseteq> Some ` set xs" "props (arrayOf xs) = []"
    by (simp_all add: arrayOf_def)
  from shuffleLoop_inv [OF assms(1) this(2) this(1) l] assms(2)
  show ?thesis by (simp add: shuffle_def arrayOf_def)
qed

lemma makePassengers_ok:
  assumes "0 \<le> seed g" "set sts \<subseteq> Some ` A"
  shows "\<exists>ps g'. makePassengers idx sts g = Inr (ps, g')
           \<and> length ps = length sts
           \<and> (\<forall>p\<in>set ps. (row p, column p) \<in> A) \<and> 0 \<le> seed g'"
  using assms
proof (induction sts arbitrary: idx g)
  case Nil
  then show ?case by simp
next
  case (Cons seat rest)
  from pick_some [OF Cons.prems(1), of "[SLOW, NORMAL, NORMAL, NORMAL, FAST]"]
  obtain ws g1 where p1: "pick [SLOW, NORMAL, NORMAL, NORMAL, FAST] g = (Some ws, g1)"
    and g1: "0 \<le> seed g1" by auto
  from pick_some [OF g1, of "[NONE, SMALL, SMALL, SMALL, LARGE]"]
  obtain cs g2 where p2: "pick [NONE, SMALL, SMALL, SMALL, LARGE] g1 = (Some cs, g2)"
    and g2: "0 \<le> seed g2" by auto
  from pick_some [OF g2,
      of "[STRICT, NORMAL_COMPLIANCE, NORMAL_COMPLIANCE, NORMAL_COMPLIANCE, OPPORTUNISTIC]"]
  obtain cl g3 where p3:
    "pick [STRICT, NORMAL_COMPLIANCE, NORMAL_COMPLIANCE, NORMAL_COMPLIANCE, OPPORTUNISTIC] g2
       = (Some cl, g3)"
    and g3: "0 \<le> seed g3" by auto
  from Cons.prems(2) obtain r c where seat: "seat = Some (r, c)" and rc: "(r, c) \<in> A" by auto
  have rest: "set rest \<subseteq> Some ` A" using Cons.prems(2) by simp
  from Cons.IH [OF g3 rest, of "idx + 1"] obtain ps g' where
    ih: "makePassengers (idx + 1) rest g3 = Inr (ps, g')" "length ps = length rest"
        "\<forall>p\<in>set ps. (row p, column p) \<in> A" "0 \<le> seed g'"
    by blast
  have "makePassengers idx (seat # rest) g
        = Inr (newPassenger (idx + 1) r c (Some ws) (Some cs) (Some cl) None # ps, g')"
    using p1 p2 p3 seat ih(1) by simp
  moreover have "(row (newPassenger (idx + 1) r c (Some ws) (Some cs) (Some cl) None),
                  column (newPassenger (idx + 1) r c (Some ws) (Some cs) (Some cl) None)) \<in> A"
    using rc by (simp add: newPassenger_def)
  ultimately show ?case using ih(2,3,4) by auto
qed

lemma generatePassengers_ok:
  assumes "0 \<le> sd" "0 \<le> count"
  shows "\<exists>ps g'. generatePassengers count n cols (newRandomGenerator sd) = Inr (ps, g')
           \<and> length ps = min (nat count) (length (allSeats n cols))
           \<and> (\<forall>p\<in>set ps. (row p, column p) \<in> set (allSeats n cols))"
proof -
  let ?g = "newRandomGenerator sd"
  have g: "0 \<le> seed ?g" using assms(1) by (simp add: newRandomGenerator_def)
  obtain a g1 where sh: "shuffle (arrayOf (allSeats n cols)) ?g = (a, g1)"
    by (cases "shuffle (arrayOf (allSeats n cols)) ?g")
  note s = shuffle_inv [OF g sh]
  have sl: "slice0 count (elems a) = take (nat count) (elems a)"
    using assms(2) by (simp add: slice0_def)
  have sub: "set (slice0 count (elems a)) \<subseteq> Some ` set (allSeats n cols)"
    unfolding sl using s set_take_subset [of "nat count" "elems a"] by blast
  from makePassengers_ok [OF _ sub, of g1 0] s obtain ps g' where
    m: "makePassengers 0 (slice0 count (elems a)) g1 = Inr (ps, g')"
       "length ps = length (slice0 count (elems a))"
       "\<forall>p\<in>set ps. (row p, column p) \<in> set (allSeats n cols)"
    by blast
  have "generatePassengers count n cols ?g = Inr (ps, g')"
    using sh m(1) by (simp add: generatePassengers_def)
  moreover have "length ps = min (nat count) (length (allSeats n cols))"
    using m(2) s unfolding sl by (simp add: min.commute)
  ultimately show ?thesis using m(3) by blast
qed

lemma preGenerate_ok:
  "\<exists>p0 p1 p2 g0 g1 g2.
      preGenerate ac = Inr [p0, p1, p2]
    \<and> generatePassengers 114 (rows ac) (columns ac) (newRandomGenerator 12345) = Inr (p0, g0)
    \<and> generatePassengers 114 (rows ac) (columns ac) (newRandomGenerator 12346) = Inr (p1, g1)
    \<and> generatePassengers 114 (rows ac) (columns ac) (newRandomGenerator 12347) = Inr (p2, g2)
    \<and> length p0 = min 114 (length (allSeats (rows ac) (columns ac)))
    \<and> length p1 = length p0 \<and> length p2 = length p0
    \<and> (\<forall>ps\<in>set [p0, p1, p2]. \<forall>p\<in>set ps.
          (row p, column p) \<in> set (allSeats (rows ac) (columns ac)))"
proof -
  from generatePassengers_ok [of 12345 114 "rows ac" "columns ac"] obtain p0 g0 where
    a: "generatePassengers 114 (rows ac) (columns ac) (newRandomGenerator 12345) = Inr (p0, g0)"
       "length p0 = min (nat 114) (length (allSeats (rows ac) (columns ac)))"
       "\<forall>p\<in>set p0. (row p, column p) \<in> set (allSeats (rows ac) (columns ac))"
    by auto
  from generatePassengers_ok [of 12346 114 "rows ac" "columns ac"] obtain p1 g1 where
    b: "generatePassengers 114 (rows ac) (columns ac) (newRandomGenerator 12346) = Inr (p1, g1)"
       "length p1 = min (nat 114) (length (allSeats (rows ac) (columns ac)))"
       "\<forall>p\<in>set p1. (row p, column p) \<in> set (allSeats (rows ac) (columns ac))"
    by auto
  from generatePassengers_ok [of 12347 114 "rows ac" "columns ac"] obtain p2 g2 where
    c: "generatePassengers 114 (rows ac) (columns ac) (newRandomGenerator 12347) = Inr (p2, g2)"
       "length p2 = min (nat 114) (length (allSeats (rows ac) (columns ac)))"
       "\<forall>p\<in>set p2. (row p, column p) \<in> set (allSeats (rows ac) (columns ac))"
    by auto
  have "preGenerate ac = Inr [p0, p1, p2]"
    using a(1) b(1) c(1) by (simp add: preGenerate_def testScenarios_def)
  then show ?thesis using a b c by (intro exI [of _ p0] exI [of _ p1] exI [of _ p2] exI [of _ g0] exI [of _ g1] exI [of _ g2]) simp
qed

lemma distinct_rows_seats:
  "distinct rs \<Longrightarrow> distinct cols \<Longrightarrow> distinct (concat (map (\<lambda>r. map (Pair r) cols) rs))"
proof (induction rs)
  case Nil
  then show ?case by simp
next
  case (Cons r rs)
  have "distinct (map (Pair r) cols)" using Cons.prems(2) by (simp add: distinct_map inj_on_def)
  moreover have "set (map (Pair r) cols) \<inter> set (concat (map (\<lambda>r. map (Pair r) cols) rs)) = {}"
    using Cons.prems(1) by auto
  ultimately show ?case using Cons by simp
qed

lemma distinct_allSeats: "distinct cols \<Longrightarrow> distinct (allSeats n cols)"
  unfolding allSeats_def by (rule distinct_rows_seats) simp_all

lemma swap_elems:
  assumes "props a = []" "0 \<le> i" "i < int (length (elems a))" "0 \<le> j" "j < int (length (elems a))"
  shows "elems (arraySet (arraySet a i (arrayGet a j)) j (arrayGet a i))
           = (elems a)[nat i := elems a ! nat j, nat j := elems a ! nat i]"
  using assms by (simp add: arraySet_def arrayGet_def)

lemma shuffleLoop_distinct:
  assumes "0 \<le> seed g" "props a = []" "distinct (elems a)"
    and "i < length (elems a) \<or> i = 0" "shuffleLoop i a g = (a', g')"
  shows "distinct (elems a')"
  using assms
proof (induction i arbitrary: a g)
  case 0
  then show ?case by simp
next
  case (Suc i)
  obtain j g1 where n: "nextInt 0 (int (Suc i)) g = (j, g1)"
    by (cases "nextInt 0 (int (Suc i)) g")
  have le: "(0::int) \<le> int (Suc i)" by simp
  note r = nextInt_range [OF Suc.prems(1) le n]
  have i: "Suc i < length (elems a)" using Suc.prems(4) by simp
  let ?a2 = "arraySet (arraySet a (int (Suc i)) (arrayGet a j)) j (arrayGet a (int (Suc i)))"
  have ji: "j < int (length (elems a))" using r(2) i by simp
  have e: "elems ?a2 = (elems a)[Suc i := elems a ! nat j, nat j := elems a ! Suc i]"
  proof -
    have n: "nat (int (Suc i)) = Suc i" by simp
    show ?thesis
      using swap_elems [OF Suc.prems(2) _ _ r(1) ji, of "int (Suc i)"] i
      unfolding n by simp
  qed
  have d: "distinct (elems ?a2)"
    unfolding e using Suc.prems(3) i ji r(1) by (simp add: distinct_swap)
  have p: "props ?a2 = []"
    using Suc.prems(2) i ji r(1) by (simp add: arraySet_def)
  have l: "i < length (elems ?a2) \<or> i = 0" unfolding e using i by simp
  have rec: "shuffleLoop i ?a2 g1 = (a', g')"
    using Suc.prems(5) n by (simp add: Let_def)
  from Suc.IH [OF r(3) p d l rec] show ?case .
qed

lemma makePassengers_seats:
  "makePassengers idx sts g = Inr (ps, g') \<Longrightarrow> map (\<lambda>p. Some (row p, column p)) ps = sts"
proof (induction sts arbitrary: idx g ps)
  case Nil
  then show ?case by simp
next
  case (Cons seat rest)
  obtain ws g1 where p1: "pick [SLOW, NORMAL, NORMAL, NORMAL, FAST] g = (ws, g1)"
    by (cases "pick [SLOW, NORMAL, NORMAL, NORMAL, FAST] g")
  obtain cs g2 where p2: "pick [NONE, SMALL, SMALL, SMALL, LARGE] g1 = (cs, g2)"
    by (cases "pick [NONE, SMALL, SMALL, SMALL, LARGE] g1")
  obtain cl g3 where p3:
    "pick [STRICT, NORMAL_COMPLIANCE, NORMAL_COMPLIANCE, NORMAL_COMPLIANCE, OPPORTUNISTIC] g2
       = (cl, g3)"
    by (cases "pick [STRICT, NORMAL_COMPLIANCE, NORMAL_COMPLIANCE, NORMAL_COMPLIANCE,
                     OPPORTUNISTIC] g2")
  from Cons.prems p1 p2 p3 obtain r c ps1 where
    seat: "seat = Some (r, c)" and rec: "makePassengers (idx + 1) rest g3 = Inr (ps1, g')"
    and ps: "ps = newPassenger (idx + 1) r c ws cs cl None # ps1"
    by (auto split: option.splits sum.splits)
  from Cons.IH [OF rec] show ?case unfolding ps seat by (simp add: newPassenger_def)
qed

lemma generatePassengers_distinct:
  assumes "0 \<le> sd" "distinct cols"
    and gen: "generatePassengers count n cols (newRandomGenerator sd) = Inr (ps, g')"
  shows "distinct (map (\<lambda>p. (row p, column p)) ps)"
proof -
  let ?g = "newRandomGenerator sd"
  have g: "0 \<le> seed ?g" using assms(1) by (simp add: newRandomGenerator_def)
  obtain a g1 where sh: "shuffle (arrayOf (allSeats n cols)) ?g = (a, g1)"
    by (cases "shuffle (arrayOf (allSeats n cols)) ?g")
  have l: "length (elems (arrayOf (allSeats n cols))) - 1 < length (elems (arrayOf (allSeats n cols)))
           \<or> length (elems (arrayOf (allSeats n cols))) - 1 = 0"
    by (cases "allSeats n cols") (simp_all add: arrayOf_def)
  have "distinct (elems (arrayOf (allSeats n cols)))"
    using distinct_allSeats [OF assms(2), of n] by (simp add: arrayOf_def distinct_map)
  moreover have "props (arrayOf (allSeats n cols)) = []" by (simp add: arrayOf_def)
  ultimately have d: "distinct (elems a)"
    using shuffleLoop_distinct [OF g _ _ l] sh by (simp add: shuffle_def)
  have "distinct (slice0 count (elems a))" using d by (simp add: slice0_def)
  moreover have "map (\<lambda>p. Some (row p, column p)) ps = slice0 count (elems a)"
    using gen sh by (intro makePassengers_seats [of 0 _ g1 ps g']) (simp add: generatePassengers_def)
  ultimately have "distinct (map (\<lambda>p. Some (row p, column p)) ps)" by simp
  moreover have "map (\<lambda>p. Some (row p, column p)) ps = map Some (map (\<lambda>p. (row p, column p)) ps)"
    by simp
  ultimately have "distinct (map Some (map (\<lambda>p. (row p, column p)) ps))" by (simp only:)
  then show ?thesis
    using distinct_map [of Some "map (\<lambda>p. (row p, column p)) ps"] by blast
qed

subsection \<open>The seat of a SEATED passenger\<close>

lemma seats_ops [simp]:
  "seats (placeInAisle p r ac) = seats ac"
  "seats (removeFromAisle r ac) = seats ac"
  "seats (snd (useBinCapacity r sz ac)) = seats ac"
  "map_of (seats (seatPassenger p ac)) = (map_of (seats ac))((row p, column p) \<mapsto> Some p)"
  by (auto simp: placeInAisle_def removeFromAisle_def seatPassenger_def useBinCapacity_def
      update_conv' split: option.splits)

lemma seatedInv_generic:
  assumes inv: "seatedInv s"
    and PS: "passengerStates s' = AList.update k ps' (passengerStates s)"
    and S: "seats (aircraft s') = seats (aircraft s)"
    and ns: "state ps' \<noteq> SEATED"
  shows "seatedInv s'"
  using inv ns unfolding seatedInv_def PS S by (auto simp: update_conv' split: if_splits)

lemma seatedInv_startSeating:
  "seatedInv s \<Longrightarrow> seats (aircraft s') = seats (aircraft s) \<Longrightarrow>
   passengerStates s' = passengerStates s \<Longrightarrow> seatedInv (startSeating k ps s')"
  by (auto simp: startSeating_def Let_def seatedInv_def update_conv' split: if_splits)

lemma seatedInv_processWalking:
  assumes "seatedInv s" "state ps = WALKING"
  shows "seatedInv (processWalking k ps s)"
  using assms
  by (auto simp: processWalking_def Let_def intro!: seatedInv_startSeating
      intro: seatedInv_generic [OF assms(1)])

lemma seatedInv_processStowing:
  assumes "seatedInv s" "state ps = STOWING"
  shows "seatedInv (processStowing k ps s)"
  using assms
  by (auto simp: processStowing_def Let_def intro!: seatedInv_startSeating
      intro: seatedInv_generic [OF assms(1)])

lemma seatedInv_processShuffling:
  assumes "seatedInv s" "state ps = SHUFFLING"
  shows "seatedInv (processShuffling k ps s)"
  using assms
  by (auto simp: processShuffling_def Let_def intro: seatedInv_generic [OF assms(1)])

lemma seatedInv_processSeating:
  assumes inv: "seatedInv s" and sim: "simInv s"
    and cur: "map_of (passengerStates s) k = Some ps"
    and inj: "inj_on (\<lambda>p. (row p, column p)) (set (originalPassengers s))"
  shows "seatedInv (processSeating k ps s)"
proof -
  have p: "passenger ps \<in> set (originalPassengers s)" using simInvD(5) [OF sim cur] .
  have other: "passenger ps = passenger q"
    if "map_of (passengerStates s) k' = Some q"
      "row (passenger q) = row (passenger ps)" "column (passenger q) = column (passenger ps)"
    for k' q
  proof -
    have "(row (passenger q), column (passenger q)) = (row (passenger ps), column (passenger ps))"
      using that(2,3) by simp
    from inj_onD [OF inj this simInvD(5) [OF sim that(1)] p] show ?thesis by simp
  qed
  show ?thesis
    unfolding seatedInv_def processSeating_def
    using inv other by (auto simp: seatedInv_def update_conv' split: if_splits)
qed

lemma seatedInv_process:
  assumes inv: "seatedInv s" and sim: "simInv s"
    and inj: "inj_on (\<lambda>p. (row p, column p)) (set (originalPassengers s))"
  shows "seatedInv (processPassengerInAisle k s)"
proof (cases "map_of (passengerStates s) k")
  case None
  then show ?thesis using inv by (simp add: processPassengerInAisle_def)
next
  case (Some ps)
  show ?thesis
  proof (cases "state ps")
    case WALKING
    then show ?thesis using Some seatedInv_processWalking [OF inv]
      by (simp add: processPassengerInAisle_def)
  next
    case STOWING
    then show ?thesis using Some seatedInv_processStowing [OF inv]
      by (simp add: processPassengerInAisle_def)
  next
    case SHUFFLING
    then show ?thesis using Some seatedInv_processShuffling [OF inv]
      by (simp add: processPassengerInAisle_def)
  next
    case SEATING
    then show ?thesis using Some seatedInv_processSeating [OF inv sim Some inj]
      by (simp add: processPassengerInAisle_def)
  qed (use Some inv in \<open>simp_all add: processPassengerInAisle_def\<close>)
qed

lemma seatedInv_fold_process:
  "seatedInv s \<Longrightarrow> simInv s \<Longrightarrow>
   inj_on (\<lambda>p. (row p, column p)) (set (originalPassengers s)) \<Longrightarrow>
   seatedInv (fold (\<lambda>kp. processPassengerInAisle (fst kp)) kps s)"
proof (induction kps arbitrary: s)
  case Nil
  then show ?case by simp
next
  case (Cons kp kps)
  have "seatedInv (processPassengerInAisle (fst kp) s)"
    using Cons.prems by (rule seatedInv_process)
  moreover have "simInv (processPassengerInAisle (fst kp) s)"
    using Cons.prems(2) by (rule simInv_processPassengerInAisle)
  ultimately show ?case using Cons.IH [of "processPassengerInAisle (fst kp) s"] Cons.prems(3)
    by simp
qed

lemma seatedInv_tryAdd:
  assumes "seatedInv s" "tryAddFromQueue s = Inr s'"
  shows "seatedInv s'"
  using assms
  by (auto simp: tryAddFromQueue_def split: list.splits if_splits option.splits
      intro: seatedInv_generic [OF assms(1)])

lemma seatedInv_frame:
  "seatedInv s \<Longrightarrow> seatedInv (s\<lparr> currentStep := n \<rparr>)"
  "seatedInv s \<Longrightarrow> seatedInv (checkCompletion s)"
  by (simp_all add: seatedInv_def checkCompletion_def)

lemma seatedInv_step:
  assumes inv: "seatedInv s" and sim: "simInv s"
    and inj: "inj_on (\<lambda>p. (row p, column p)) (set (originalPassengers s))"
    and st: "step s = Inr (b, s')"
  shows "seatedInv s'"
proof (cases "isComplete s")
  case True
  then show ?thesis using inv st by (simp add: step_def)
next
  case False
  let ?s1 = "s\<lparr> currentStep := currentStep s + 1 \<rparr>"
  let ?s2 = "fold (\<lambda>kp. processPassengerInAisle (fst kp)) (getAislePassengersSorted ?s1) ?s1"
  from st False obtain s3 where s3: "tryAddFromQueue ?s2 = Inr s3" and s': "s' = checkCompletion s3"
    by (auto simp: step_def Let_def split: sum.splits)
  have "seatedInv ?s2"
    using inv sim inj by (intro seatedInv_fold_process seatedInv_frame simInv_tick) simp_all
  then have "seatedInv s3" using s3 by (rule seatedInv_tryAdd)
  then show ?thesis unfolding s' by (rule seatedInv_frame)
qed

lemma seatedInv_steps:
  "seatedInv s \<Longrightarrow> simInv s \<Longrightarrow>
   inj_on (\<lambda>p. (row p, column p)) (set (originalPassengers s)) \<Longrightarrow>
   steps n s = Inr s' \<Longrightarrow> seatedInv s'"
proof (induction n arbitrary: s)
  case 0
  then show ?case by simp
next
  case (Suc n)
  from Suc.prems(4) obtain b s1 where s1: "step s = Inr (b, s1)" and rest: "steps n s1 = Inr s'"
    by (auto split: sum.splits)
  have a: "seatedInv s1" using Suc.prems(1,2,3) s1 by (rule seatedInv_step)
  have b: "simInv s1" using Suc.prems(2) s1 by (rule simInv_step)
  have c: "originalPassengers s1 = originalPassengers s" using s1 by (rule originalPassengers_step)
  show ?case using Suc.IH [OF a b _ rest] Suc.prems(3) c by simp
qed

lemma seatedInv_Simulation: "seatedInv (setBoardingOrder order (Simulation ps ac))"
proof -
  have "map_of (passengerStates (setBoardingOrder order (Simulation ps ac))) k = Some q \<Longrightarrow>
        state q = WAITING" for k q
    using initial_states [of ps "[]" k q]
    by (auto simp: setBoardingOrder_def Simulation_def reset_def initialState_def)
  then show ?thesis unfolding seatedInv_def by fastforce
qed

subsection \<open>C5 and C7: occupancy, and stowing without capacity\<close>



text \<open>The concrete scenario after three ticks, both passengers in the aisle, and after six.\<close>

lemma scenario_tick3_ok: "steps 3 scenarioStart = Inr (projr (steps 3 scenarioStart))"
  by code_simp

lemma scenario_tick3_p1:
  "map_of (passengerStates (projr (steps 3 scenarioStart))) 1
    = Some (the (map_of (passengerStates (projr (steps 3 scenarioStart))) 1))"
  by code_simp

lemma scenario_tick3_p2:
  "map_of (passengerStates (projr (steps 3 scenarioStart))) 2
    = Some (the (map_of (passengerStates (projr (steps 3 scenarioStart))) 2))"
  by code_simp

lemma scenario_tick3_aisle:
  "inAisle (the (map_of (passengerStates (projr (steps 3 scenarioStart))) 1))
   \<and> inAisle (the (map_of (passengerStates (projr (steps 3 scenarioStart))) 2))"
  by code_simp

lemma scenario_tick6_ok: "steps 6 scenarioStart = Inr (projr (steps 6 scenarioStart))"
  by code_simp

lemma scenario_tick6_p1:
  "map_of (passengerStates (projr (steps 6 scenarioStart))) 1
    = Some (the (map_of (passengerStates (projr (steps 6 scenarioStart))) 1))"
  by code_simp

lemma scenario_tick6_p2:
  "map_of (passengerStates (projr (steps 6 scenarioStart))) 2
    = Some (the (map_of (passengerStates (projr (steps 6 scenarioStart))) 2))"
  by code_simp

lemma scenario_tick6_seated:
  "state (the (map_of (passengerStates (projr (steps 6 scenarioStart))) 1)) = SEATED
   \<and> passenger (the (map_of (passengerStates (projr (steps 6 scenarioStart))) 1)) = scenarioP1"
  by code_simp

lemma scenario_seats_distinct:
  "distinct (map (\<lambda>p. (row p, column p)) [scenarioP1, scenarioP2])"
  by (simp add: scenarioP1_def scenarioP2_def)


lemma useBin_consumes:
  assumes "hasBinCapacity ac r sz" "sz \<noteq> NONE"
  shows "\<exists>cur. map_of (binCapacity ac) r = Some cur \<and> required sz \<le> cur
           \<and> map_of (binCapacity (snd (useBinCapacity r sz ac))) r = Some (cur - required sz)"
  using assms
  by (auto simp: hasBinCapacity_def useBinCapacity_def update_conv' split: option.splits)

lemma useBin_other_rows:
  "r' \<noteq> r \<Longrightarrow>
   map_of (binCapacity (snd (useBinCapacity r sz ac))) r' = map_of (binCapacity ac) r'"
  by (auto simp: useBinCapacity_def update_conv' split: option.splits)

lemma useBin_none: "snd (useBinCapacity r NONE ac) = ac"
  by (simp add: useBinCapacity_def)

text \<open>
  C7.  Take the state in the middle of a tick in which the \<open>i\<close>-th passenger of the
  processing order is about to be processed, and let it be STOWING with at most one stow
  tick left.  Processing it consumes the bin capacity of its row as far as
  \<^verbatim>\<open>useBinCapacity\<close> allows: when the row has the capacity for the carry-on, the capacity of
  the row drops by what the carry-on requires, and no other row changes.  It logs
  STOW_END and leaves the passenger in SEATING or SHUFFLING, as the blocking seats decide.
  When the capacity is insufficient the bins stay as they are, the transition happens all
  the same, and the log already holds a BIN_FULL event of that passenger.
\<close>

theorem stowing_never_blocked:
  assumes run: "steps n (setBoardingOrder order (Simulation passengers ac)) = Inr s"
    and s1: "s1 = s\<lparr> currentStep := currentStep s + 1 \<rparr>"
    and i: "i < length (getAislePassengersSorted s1)"
    and s2: "s2 = fold (\<lambda>kp. processPassengerInAisle (fst kp))
                    (take i (getAislePassengersSorted s1)) s1"
    and k: "k = fst (getAislePassengersSorted s1 ! i)"
    and cur: "map_of (passengerStates s2) k = Some ps"
    and st: "state ps = STOWING"
    and z: "stowRemaining ps - 1 \<le> 0"
    and s3: "s3 = processPassengerInAisle k s2"
  shows "aircraft s3 = snd (useBinCapacity (aisleRow ps) (carryOnSize (passenger ps)) (aircraft s2))
       \<and> (hasBinCapacity (aircraft s2) (aisleRow ps) (carryOnSize (passenger ps))
            \<and> carryOnSize (passenger ps) \<noteq> NONE \<longrightarrow>
            (\<exists>c. map_of (binCapacity (aircraft s2)) (aisleRow ps) = Some c
                \<and> required (carryOnSize (passenger ps)) \<le> c
                \<and> map_of (binCapacity (aircraft s3)) (aisleRow ps)
                    = Some (c - required (carryOnSize (passenger ps)))))
       \<and> (\<forall>r. r \<noteq> aisleRow ps \<longrightarrow>
            map_of (binCapacity (aircraft s3)) r = map_of (binCapacity (aircraft s2)) r)
       \<and> (\<exists>ps'. map_of (passengerStates s3) k = Some ps'
              \<and> state ps' =
                  (if getBlockingSeats (aircraft s3) (row (passenger ps)) (column (passenger ps)) = []
                   then SEATING else SHUFFLING)
              \<and> aisleRow ps' = aisleRow ps)
       \<and> \<lparr> ev_step = currentStep s2, ev_type = STOW_END, passengerId = k,
            passengerRow = row (passenger ps), passengerColumn = column (passenger ps),
            ev_data = RowData (aisleRow ps) \<rparr> \<in> set (events s3)
       \<and> (\<not> hasBinCapacity (aircraft s2) (aisleRow ps) (carryOnSize (passenger ps)) \<longrightarrow>
            binFullLogged s2 k \<and> binFullLogged s3 k
            \<and> binCapacity (aircraft s3) = binCapacity (aircraft s2))"
proof -
  have "simInv s" using simInv_Simulation run by (rule simInv_steps)
  then have inv: "simInv s2" unfolding s2 s1 by (intro simInv_fold_process simInv_tick)
  have pk: "pid (passenger ps) = k" using simInvD(1) [OF inv cur] .
  have eq: "s3 = startSeating k (ps\<lparr> stowRemaining := stowRemaining ps - 1 \<rparr>)
          (recordEvent STOW_END (passenger ps) (RowData (aisleRow ps))
             (s2\<lparr> aircraft :=
                   snd (useBinCapacity (aisleRow ps) (carryOnSize (passenger ps)) (aircraft s2)) \<rparr>))"
    using cur st z by (simp add: s3 processPassengerInAisle_def processStowing_def Let_def)
  have a: "aircraft s3 = snd (useBinCapacity (aisleRow ps) (carryOnSize (passenger ps)) (aircraft s2))"
    unfolding eq by (simp add: startSeating_def Let_def)
  have u: "\<exists>c. map_of (binCapacity (aircraft s2)) (aisleRow ps) = Some c
                \<and> required (carryOnSize (passenger ps)) \<le> c
                \<and> map_of (binCapacity (aircraft s3)) (aisleRow ps)
                    = Some (c - required (carryOnSize (passenger ps)))"
    if "hasBinCapacity (aircraft s2) (aisleRow ps) (carryOnSize (passenger ps))"
      "carryOnSize (passenger ps) \<noteq> NONE"
    unfolding a using that by (rule useBin_consumes)
  have o: "map_of (binCapacity (aircraft s3)) r = map_of (binCapacity (aircraft s2)) r"
    if "r \<noteq> aisleRow ps" for r
    unfolding a using that by (rule useBin_other_rows)
  have b: "\<exists>ps'. map_of (passengerStates s3) k = Some ps'
              \<and> state ps' =
                  (if getBlockingSeats (aircraft s3) (row (passenger ps)) (column (passenger ps)) = []
                   then SEATING else SHUFFLING)
              \<and> aisleRow ps' = aisleRow ps"
    unfolding a unfolding eq by (simp add: startSeating_def Let_def update_conv')
  have c: "\<lparr> ev_step = currentStep s2, ev_type = STOW_END, passengerId = k,
            passengerRow = row (passenger ps), passengerColumn = column (passenger ps),
            ev_data = RowData (aisleRow ps) \<rparr> \<in> set (events s3)"
    unfolding eq using pk by (simp add: startSeating_def Let_def)
  have ev: "set (events s2) \<subseteq> set (events s3)"
    unfolding eq by (auto simp: startSeating_def Let_def)
  have d: "binFullLogged s2 k \<and> binFullLogged s3 k
            \<and> binCapacity (aircraft s3) = binCapacity (aircraft s2)"
    if nc: "\<not> hasBinCapacity (aircraft s2) (aisleRow ps) (carryOnSize (passenger ps))"
  proof -
    have l: "binFullLogged s2 k" using simInvD(4) [OF inv cur st nc] .
    then have "binFullLogged s3 k" using ev by (auto simp: binFullLogged_def)
    moreover have "binCapacity (aircraft s3) = binCapacity (aircraft s2)"
      unfolding a using useBin_insufficient [OF nc] by simp
    ultimately show ?thesis using l by simp
  qed
  from a u o b c d show ?thesis by blast
qed

lemma stow_ok: "steps 5 stowScenario = Inr (projr (steps 5 stowScenario))"
  by code_simp

lemma stow_i: "0 < length (getAislePassengersSorted stowTick)"
  by code_simp

lemma stow_k: "1 = fst (getAislePassengersSorted stowTick ! 0)"
  by code_simp

lemma stow_cur: "map_of (passengerStates stowTick) 1 = Some (the (map_of (passengerStates stowTick) 1))"
  by code_simp

lemma stow_st: "state (the (map_of (passengerStates stowTick) 1)) = STOWING"
  by code_simp

lemma stow_z: "stowRemaining (the (map_of (passengerStates stowTick) 1)) - 1 \<le> 0"
  by code_simp

lemma stow_nocap: "\<not> hasBinCapacity (aircraft stowTick)
    (aisleRow (the (map_of (passengerStates stowTick) 1)))
    (carryOnSize (passenger (the (map_of (passengerStates stowTick) 1))))"
  by code_simp

lemma stow_blocking:
  "getBlockingSeats (aircraft (processPassengerInAisle 1 stowTick))
     (row (passenger (the (map_of (passengerStates stowTick) 1))))
     (column (passenger (the (map_of (passengerStates stowTick) 1)))) = []"
  by code_simp

lemma stow6_ok: "steps 5 stowScenario6 = Inr (projr (steps 5 stowScenario6))"
  by code_simp

lemma stow6_i: "0 < length (getAislePassengersSorted stowTick6)"
  by code_simp

lemma stow6_k: "1 = fst (getAislePassengersSorted stowTick6 ! 0)"
  by code_simp

lemma stow6_cur:
  "map_of (passengerStates stowTick6) 1 = Some (the (map_of (passengerStates stowTick6) 1))"
  by code_simp

lemma stow6_st: "state (the (map_of (passengerStates stowTick6) 1)) = STOWING"
  by code_simp

lemma stow6_z: "stowRemaining (the (map_of (passengerStates stowTick6) 1)) - 1 \<le> 0"
  by code_simp

lemma stow6_row: "aisleRow (the (map_of (passengerStates stowTick6) 1)) = 1"
  by code_simp

lemma stow6_size: "carryOnSize (passenger (the (map_of (passengerStates stowTick6) 1))) = SMALL"
  by code_simp

lemma stow6_cap: "hasBinCapacity (aircraft stowTick6) 1 SMALL"
  by code_simp

lemma stow6_before: "map_of (binCapacity (aircraft stowTick6)) 1 = Some 6"
  by code_simp

theorem stowing_never_blocked_witness:
  "steps 5 stowScenario = Inr (projr (steps 5 stowScenario))
   \<and> map_of (passengerStates stowTick) 1 = Some (the (map_of (passengerStates stowTick) 1))
   \<and> state (the (map_of (passengerStates stowTick) 1)) = STOWING
   \<and> stowRemaining (the (map_of (passengerStates stowTick) 1)) - 1 \<le> 0
   \<and> \<not> hasBinCapacity (aircraft stowTick)
         (aisleRow (the (map_of (passengerStates stowTick) 1)))
         (carryOnSize (passenger (the (map_of (passengerStates stowTick) 1))))
   \<and> binFullLogged stowTick 1
   \<and> (\<exists>ps'. map_of (passengerStates (processPassengerInAisle 1 stowTick)) 1 = Some ps'
          \<and> state ps' = SEATING)
   \<and> binCapacity (aircraft (processPassengerInAisle 1 stowTick)) = binCapacity (aircraft stowTick)
   \<and> steps 5 stowScenario6 = Inr (projr (steps 5 stowScenario6))
   \<and> state (the (map_of (passengerStates stowTick6) 1)) = STOWING
   \<and> hasBinCapacity (aircraft stowTick6) 1 SMALL
   \<and> map_of (binCapacity (aircraft stowTick6)) 1 = Some 6
   \<and> map_of (binCapacity (aircraft (processPassengerInAisle 1 stowTick6))) 1 = Some 5"
proof -
  have s2: "stowTick = fold (\<lambda>kp. processPassengerInAisle (fst kp))
                    (take 0 (getAislePassengersSorted stowTick)) stowTick"
    by simp
  note inst = stowing_never_blocked
    [where n = 5 and order = "[1]" and passengers = "[stowPassenger]"
       and ac = "Aircraft 1 [''A'', ''B'', ''C'', ''D'', ''E'', ''F''] 3 0"
       and i = 0 and k = 1,
     folded stowScenario_def, OF stow_ok stowTick_def stow_i s2 stow_k stow_cur stow_st stow_z refl]
  from inst stow_nocap stow_blocking
  have none: "binFullLogged stowTick 1
   \<and> (\<exists>ps'. map_of (passengerStates (processPassengerInAisle 1 stowTick)) 1 = Some ps'
          \<and> state ps' = SEATING)
   \<and> binCapacity (aircraft (processPassengerInAisle 1 stowTick)) = binCapacity (aircraft stowTick)"
    by auto
  have s26: "stowTick6 = fold (\<lambda>kp. processPassengerInAisle (fst kp))
                    (take 0 (getAislePassengersSorted stowTick6)) stowTick6"
    by simp
  note inst6 = stowing_never_blocked
    [where n = 5 and order = "[1]" and passengers = "[stowPassenger]"
       and ac = "Aircraft 1 [''A'', ''B'', ''C'', ''D'', ''E'', ''F''] 3 6"
       and i = 0 and k = 1,
     folded stowScenario6_def,
     OF stow6_ok stowTick6_def stow6_i s26 stow6_k stow6_cur stow6_st stow6_z refl]
  from inst6 have "hasBinCapacity (aircraft stowTick6) 1 SMALL \<and> SMALL \<noteq> NONE \<longrightarrow>
      (\<exists>c. map_of (binCapacity (aircraft stowTick6)) 1 = Some c \<and> required SMALL \<le> c
          \<and> map_of (binCapacity (aircraft (processPassengerInAisle 1 stowTick6))) 1
              = Some (c - required SMALL))"
    unfolding stow6_row stow6_size by blast
  then have six: "map_of (binCapacity (aircraft (processPassengerInAisle 1 stowTick6))) 1 = Some 5"
    using stow6_cap stow6_before by (auto simp: required_def)
  from none six stow_ok stow_cur stow_st stow_z stow_nocap stow6_ok stow6_st stow6_cap stow6_before
  show ?thesis by blast
qed

subsection \<open>C2: the order of work within a tick\<close>

lemma queueInv_process:
  assumes "queueInv s"
  shows "queueInv (processPassengerInAisle k s)"
proof -
  from assms obtain ks where ks: "queue s = map Some ks" "distinct ks"
    "\<forall>k\<in>set ks. \<exists>ps. map_of (passengerStates s) k = Some ps \<and> state ps = WAITING"
    unfolding queueInv_def by blast
  have "\<exists>ps. map_of (passengerStates (processPassengerInAisle k s)) k' = Some ps
          \<and> state ps = WAITING" if "k' \<in> set ks" for k'
  proof -
    from ks(3) that obtain q where q: "map_of (passengerStates s) k' = Some q" "state q = WAITING"
      by blast
    from process_waiting [OF q] q(2) show ?thesis by blast
  qed
  then show ?thesis unfolding queueInv_def using ks(1,2) by (intro exI [of _ ks]) simp
qed

lemma queueInv_fold_process:
  "queueInv s \<Longrightarrow> queueInv (fold (\<lambda>kp. processPassengerInAisle (fst kp)) kps s)"
  by (induction kps arbitrary: s) (simp_all add: queueInv_process)

lemma queueInv_tryAdd:
  assumes "queueInv s" "tryAddFromQueue s = Inr s'"
  shows "queueInv s'"
proof -
  from assms(1) obtain ks where ks: "queue s = map Some ks" "distinct ks"
    "\<forall>k\<in>set ks. \<exists>ps. map_of (passengerStates s) k = Some ps \<and> state ps = WAITING"
    unfolding queueInv_def by blast
  show ?thesis
  proof (cases "ks = [] \<or> isAisleOccupied (aircraft s) 0")
    case True
    then have "s' = s" using assms(2) ks(1)
      by (auto simp: tryAddFromQueue_def split: list.splits)
    then show ?thesis using assms(1) by simp
  next
    case False
    then obtain k rest where kr: "ks = k # rest" by (cases ks) auto
    from ks(3) kr obtain ps where ps: "map_of (passengerStates s) k = Some ps" by auto
    have s': "s' = recordEvent ENTER (passenger ps) NoData
                 (putState k (ps\<lparr> state := WALKING, aisleRow := 0, enteredAt := currentStep s \<rparr>)
                    (s\<lparr> queue := map Some rest,
                        aircraft := placeInAisle (passenger ps) 0 (aircraft s) \<rparr>))"
      using assms(2) False ks(1) kr ps by (simp add: tryAddFromQueue_def)
    have "\<forall>k'\<in>set rest. \<exists>q. map_of (passengerStates s') k' = Some q \<and> state q = WAITING"
      using ks(2,3) kr unfolding s' by (auto simp: update_conv')
    moreover have "queue s' = map Some rest" "distinct rest"
      using ks(2) kr unfolding s' by simp_all
    ultimately show ?thesis unfolding queueInv_def by blast
  qed
qed

lemma queueInv_frame [simp]:
  "queueInv (s\<lparr> currentStep := n \<rparr>) = queueInv s"
  "queueInv (checkCompletion s) = queueInv s"
  by (simp_all add: queueInv_def checkCompletion_def)

lemma queueInv_step:
  assumes "queueInv s" "step s = Inr (b, s')"
  shows "queueInv s'"
proof (cases "isComplete s")
  case True
  then show ?thesis using assms by (simp add: step_def)
next
  case False
  let ?s1 = "s\<lparr> currentStep := currentStep s + 1 \<rparr>"
  let ?s2 = "fold (\<lambda>kp. processPassengerInAisle (fst kp)) (getAislePassengersSorted ?s1) ?s1"
  from assms(2) False obtain s3 where s3: "tryAddFromQueue ?s2 = Inr s3" and s': "s' = checkCompletion s3"
    by (auto simp: step_def Let_def split: sum.splits)
  have "queueInv ?s2" using assms(1) by (intro queueInv_fold_process) simp
  then have "queueInv s3" using s3 by (rule queueInv_tryAdd)
  then show ?thesis unfolding s' by simp
qed

lemma queueInv_steps: "queueInv s \<Longrightarrow> steps n s = Inr s' \<Longrightarrow> queueInv s'"
proof (induction n arbitrary: s)
  case 0
  then show ?case by simp
next
  case (Suc n)
  from Suc.prems(2) obtain b s1 where s1: "step s = Inr (b, s1)" and rest: "steps n s1 = Inr s'"
    by (auto split: sum.splits)
  from Suc.prems(1) s1 have "queueInv s1" by (rule queueInv_step)
  then show ?case using rest by (rule Suc.IH)
qed

lemma initial_keys:
  "fst ` set (fold (\<lambda>p. AList.update (pid p) (initialState p)) ps m) = pid ` set ps \<union> fst ` set m"
  by (induction ps arbitrary: m) (auto simp: dom_update)

lemma initial_waiting:
  assumes "k \<in> pid ` set ps"
  shows "\<exists>q. map_of (passengerStates (Simulation ps ac)) k = Some q \<and> state q = WAITING"
proof -
  let ?m = "fold (\<lambda>p. AList.update (pid p) (initialState p)) ps []"
  have "k \<in> fst ` set ?m" using assms by (simp add: initial_keys)
  then have "k \<in> dom (map_of ?m)" by (simp only: dom_map_of_conv_image_fst)
  then obtain q where q: "map_of ?m k = Some q" by blast
  from initial_states [OF q] have "state q = WAITING" by (auto simp: initialState_def)
  with q show ?thesis by (simp add: Simulation_def reset_def)
qed

lemma queueInv_init:
  assumes "distinct order" "set order \<subseteq> pid ` set ps"
  shows "queueInv (setBoardingOrder order (Simulation ps ac))"
proof -
  have m: "map_option (\<lambda>_. i) (map_of (passengerStates (Simulation ps ac)) i) = Some i"
    if "i \<in> set order" for i
  proof -
    from that assms(2) have "i \<in> pid ` set ps" by auto
    from initial_waiting [OF this, of ac] obtain q
      where "map_of (passengerStates (Simulation ps ac)) i = Some q" by blast
    then show ?thesis by simp
  qed
  have "map (\<lambda>i. map_option (\<lambda>_. i) (map_of (passengerStates (Simulation ps ac)) i)) order
        = map Some order"
    by (rule map_cong) (simp_all add: m)
  then show ?thesis
    unfolding queueInv_def using assms initial_waiting [of _ ps ac]
    by (intro exI [of _ order]) (auto simp: setBoardingOrder_def)
qed

lemma js_sort_desc:
  "sorted_wrt (\<lambda>a b. key a \<ge> key b) (js_sort (\<lambda>a b. key b - key a) xs)"
proof (induction xs)
  case Nil
  then show ?case by simp
next
  case (Cons x xs)
  have ins: "sorted_wrt (\<lambda>a b. key a \<ge> key b) ys \<Longrightarrow>
             sorted_wrt (\<lambda>a b. key a \<ge> key b) (js_insert (\<lambda>a b. key b - key a) x ys)" for ys
  proof (induction ys)
    case Nil
    then show ?case by simp
  next
    case (Cons y ys)
    then show ?case by (auto simp: order_trans)
  qed
  show ?case using ins [OF Cons.IH] by simp
qed

lemma sorted_wrt_strict:
  "sorted_wrt (\<lambda>a b. key a \<ge> key b) xs \<Longrightarrow> distinct (map key xs) \<Longrightarrow>
   sorted_wrt (\<lambda>a b. key a > key b) xs"
  for key :: "'a \<Rightarrow> int"
proof (induction xs)
  case Nil
  then show ?case by simp
next
  case (Cons x xs)
  have "key y < key x" if "y \<in> set xs" for y
  proof -
    have "key y \<le> key x" using Cons.prems(1) that by simp
    moreover have "key y \<in> key ` set xs" using that by (rule imageI)
    then have "key y \<noteq> key x" using Cons.prems(2) by auto
    ultimately show ?thesis by simp
  qed
  then show ?case using Cons by simp
qed

lemma simInv_mem:
  assumes "simInv s"
  shows "(k, ps) \<in> set (passengerStates s) \<longleftrightarrow> map_of (passengerStates s) k = Some ps"
  using assms by (simp add: simInv_def)

lemma simInv_inAisleState:
  assumes "simInv s" "map_of (passengerStates s) k = Some ps"
  shows "inAisleState ps \<longleftrightarrow> inAisle ps"
  using simInvD(2) [OF assms] by (auto simp: inAisleState_def inAisle_def)

lemma aislePassengers_set:
  assumes inv: "simInv s"
  shows "set (getAislePassengersSorted s)
           = {(k, ps). map_of (passengerStates s) k = Some ps \<and> inAisle ps}"
proof -
  have "set (getAislePassengersSorted s)
          = {kp \<in> set (passengerStates s). inAisleState (snd kp)}"
    by (simp add: getAislePassengersSorted_def)
  also have "\<dots> = {(k, ps). map_of (passengerStates s) k = Some ps \<and> inAisle ps}"
    using simInv_mem [OF inv] simInv_inAisleState [OF inv] by auto
  finally show ?thesis .
qed

lemma aislePassengers_sorted:
  assumes inv: "simInv s"
  shows "sorted_wrt (\<lambda>a b. aisleRow (snd a) > aisleRow (snd b)) (getAislePassengersSorted s)"
proof -
  let ?f = "filter (\<lambda>kp. inAisleState (snd kp)) (passengerStates s)"
  have d: "distinct ?f" using inv by (auto simp: simInv_def dest: distinct_map [THEN iffD1])
  have "inj_on (\<lambda>kp. aisleRow (snd kp)) (set ?f)"
  proof (rule inj_onI)
    fix a b assume a: "a \<in> set ?f" and b: "b \<in> set ?f"
      and eq: "aisleRow (snd a) = aisleRow (snd b)"
    have ma: "map_of (passengerStates s) (fst a) = Some (snd a)"
      and mb: "map_of (passengerStates s) (fst b) = Some (snd b)"
      using a b simInv_mem [OF inv, of "fst a" "snd a"] simInv_mem [OF inv, of "fst b" "snd b"]
      by simp_all
    have "inAisle (snd a)" "inAisle (snd b)"
      using a b simInv_inAisleState [OF inv ma] simInv_inAisleState [OF inv mb] by simp_all
    from simInv_unique [OF inv ma mb this eq] have "fst a = fst b" .
    with ma mb show "a = b" by (simp add: prod_eq_iff)
  qed
  with d have "distinct (map (\<lambda>kp. aisleRow (snd kp)) ?f)" by (simp add: distinct_map)
  then have "distinct (map (\<lambda>kp. aisleRow (snd kp)) (getAislePassengersSorted s))"
    unfolding getAislePassengersSorted_def by (simp add: distinct_map)
  moreover have "sorted_wrt (\<lambda>a b. aisleRow (snd a) \<ge> aisleRow (snd b)) (getAislePassengersSorted s)"
    unfolding getAislePassengersSorted_def by (rule js_sort_desc)
  ultimately show ?thesis by (rule sorted_wrt_strict [rotated])
qed

lemma tryAdd_none:
  "queue s = [] \<or> isAisleOccupied (aircraft s) 0 \<Longrightarrow> tryAddFromQueue s = Inr s"
  by (auto simp: tryAddFromQueue_def split: list.splits)

lemma tryAdd_some:
  assumes "queue s = Some k # rest" "\<not> isAisleOccupied (aircraft s) 0"
    "map_of (passengerStates s) k = Some ps"
  shows "tryAddFromQueue s =
           Inr (recordEvent ENTER (passenger ps) NoData
                 (putState k (ps\<lparr> state := WALKING, aisleRow := 0, enteredAt := currentStep s \<rparr>)
                    (s\<lparr> queue := rest, aircraft := placeInAisle (passenger ps) 0 (aircraft s) \<rparr>)))"
  using assms by (simp add: tryAddFromQueue_def)

lemma tryAdd_events:
  assumes "tryAddFromQueue s = Inr s'"
  shows "\<exists>new. events s' = events s @ new \<and> length (filter (\<lambda>e. ev_type e = ENTER) new) \<le> 1"
  using assms
  by (auto simp: tryAddFromQueue_def split: list.splits if_splits option.splits)

text \<open>
  C2.  In a tick of a run that is not complete, the passengers processed are exactly those
  standing in the aisle (states WALKING, STOWING, SHUFFLING, SEATING), in strictly
  descending order of their aisle cell.  Processing them leaves the queue alone and logs
  no ENTER event.  Only then comes the admission: nothing happens when the queue is empty
  or cell 0 is occupied, otherwise the head of the queue enters cell 0 as WALKING.  A tick
  logs at most one ENTER event.  When the boarding order names passengers of the
  simulation, none twice, the head of the queue is a WAITING passenger.
\<close>

theorem tick_order:
  assumes run: "steps n (setBoardingOrder order (Simulation passengers ac)) = Inr s"
    and nc: "\<not> isComplete s"
    and s1: "s1 = s\<lparr> currentStep := currentStep s + 1 \<rparr>"
    and s2: "s2 = fold (\<lambda>kp. processPassengerInAisle (fst kp)) (getAislePassengersSorted s1) s1"
  shows "set (getAislePassengersSorted s1)
           = {(k, ps). map_of (passengerStates s) k = Some ps \<and> inAisle ps}
       \<and> sorted_wrt (\<lambda>a b. aisleRow (snd a) > aisleRow (snd b)) (getAislePassengersSorted s1)
       \<and> queue s2 = queue s
       \<and> (\<exists>new. events s2 = events s @ new \<and> (\<forall>e\<in>set new. ev_type e \<noteq> ENTER))
       \<and> step s = (case tryAddFromQueue s2 of
                     Inl e \<Rightarrow> Inl e
                   | Inr s3 \<Rightarrow> Inr (\<not> isComplete (checkCompletion s3), checkCompletion s3))
       \<and> (queue s2 = [] \<or> isAisleOccupied (aircraft s2) 0 \<longrightarrow> tryAddFromQueue s2 = Inr s2)
       \<and> (\<forall>k rest ps. queue s2 = Some k # rest \<and> \<not> isAisleOccupied (aircraft s2) 0
              \<and> map_of (passengerStates s2) k = Some ps \<longrightarrow>
            tryAddFromQueue s2 =
              Inr (recordEvent ENTER (passenger ps) NoData
                    (putState k (ps\<lparr> state := WALKING, aisleRow := 0, enteredAt := currentStep s2 \<rparr>)
                       (s2\<lparr> queue := rest,
                            aircraft := placeInAisle (passenger ps) 0 (aircraft s2) \<rparr>))))
       \<and> (\<forall>b s'. step s = Inr (b, s') \<longrightarrow>
            (\<exists>new. events s' = events s @ new
                 \<and> length (filter (\<lambda>e. ev_type e = ENTER) new) \<le> 1))
       \<and> (distinct order \<and> set order \<subseteq> pid ` set passengers \<longrightarrow>
            (\<forall>q rest. queue s2 = q # rest \<longrightarrow>
               (\<exists>k ps. q = Some k \<and> map_of (passengerStates s2) k = Some ps \<and> state ps = WAITING)))"
proof -
  have inv: "simInv s" using simInv_Simulation run by (rule simInv_steps)
  have inv1: "simInv s1" unfolding s1 using inv by (rule simInv_tick)
  have a: "set (getAislePassengersSorted s1)
           = {(k, ps). map_of (passengerStates s) k = Some ps \<and> inAisle ps}"
    using aislePassengers_set [OF inv1] by (simp add: s1)
  have b: "sorted_wrt (\<lambda>a b. aisleRow (snd a) > aisleRow (snd b)) (getAislePassengersSorted s1)"
    using inv1 by (rule aislePassengers_sorted)
  have c: "queue s2 = queue s" by (simp add: s2 s1)
  have d: "\<exists>new. events s2 = events s @ new \<and> (\<forall>e\<in>set new. ev_type e \<noteq> ENTER)"
    using fold_process_events [of "getAislePassengersSorted s1" s1] by (simp add: s2 s1)
  have e: "step s = (case tryAddFromQueue s2 of
                     Inl e \<Rightarrow> Inl e
                   | Inr s3 \<Rightarrow> Inr (\<not> isComplete (checkCompletion s3), checkCompletion s3))"
    using nc by (simp add: step_def Let_def s2 s1 split: sum.splits)
  have f: "queue s2 = [] \<or> isAisleOccupied (aircraft s2) 0 \<longrightarrow> tryAddFromQueue s2 = Inr s2"
    using tryAdd_none by blast
  have g: "\<forall>k rest ps. queue s2 = Some k # rest \<and> \<not> isAisleOccupied (aircraft s2) 0
              \<and> map_of (passengerStates s2) k = Some ps \<longrightarrow>
            tryAddFromQueue s2 =
              Inr (recordEvent ENTER (passenger ps) NoData
                    (putState k (ps\<lparr> state := WALKING, aisleRow := 0, enteredAt := currentStep s2 \<rparr>)
                       (s2\<lparr> queue := rest,
                            aircraft := placeInAisle (passenger ps) 0 (aircraft s2) \<rparr>)))"
    using tryAdd_some by blast
  have h: "\<exists>new. events s' = events s @ new \<and> length (filter (\<lambda>e. ev_type e = ENTER) new) \<le> 1"
    if st: "step s = Inr (b, s')" for b s'
  proof -
    from st e obtain s3 where s3: "tryAddFromQueue s2 = Inr s3" and s': "s' = checkCompletion s3"
      by (auto split: sum.splits)
    from d obtain n1 where n1: "events s2 = events s @ n1" "\<forall>e\<in>set n1. ev_type e \<noteq> ENTER"
      by blast
    from tryAdd_events [OF s3] obtain n2 where n2: "events s3 = events s2 @ n2"
      "length (filter (\<lambda>e. ev_type e = ENTER) n2) \<le> 1" by blast
    have "filter (\<lambda>e. ev_type e = ENTER) n1 = []" using n1(2) by (simp add: filter_empty_conv)
    then have "length (filter (\<lambda>e. ev_type e = ENTER) (n1 @ n2)) \<le> 1" using n2(2) by simp
    moreover have "events s' = events s @ (n1 @ n2)"
      using n1(1) n2(1) by (simp add: s' checkCompletion_def)
    ultimately show ?thesis by blast
  qed
  have i: "\<forall>q rest. queue s2 = q # rest \<longrightarrow>
               (\<exists>k ps. q = Some k \<and> map_of (passengerStates s2) k = Some ps \<and> state ps = WAITING)"
    if ord: "distinct order \<and> set order \<subseteq> pid ` set passengers"
  proof -
    have "queueInv s" using queueInv_init [of order passengers ac] ord run queueInv_steps by blast
    then have "queueInv s2" unfolding s2 s1 by (intro queueInv_fold_process) simp
    then show ?thesis unfolding queueInv_def by auto
  qed
  from a b c d e f g h i show ?thesis by blast
qed

lemma scenario_tick1_ok: "steps 1 scenarioStart = Inr (projr (steps 1 scenarioStart))"
  by code_simp

lemma scenario_tick1_running: "\<not> isComplete (projr (steps 1 scenarioStart))"
  by code_simp

lemma scenario_order_ok: "distinct [1, 2 :: int] \<and> set [1, 2] \<subseteq> pid ` set [scenarioP1, scenarioP2]"
  by (simp add: scenarioP1_def scenarioP2_def)

lemma scenario_mid2_queue: "queue scenarioMid2 = [Some 2]"
  by code_simp

lemma scenario_mid2_free: "\<not> isAisleOccupied (aircraft scenarioMid2) 0"
  by code_simp

lemma scenario_tick2_order: "map fst (getAislePassengersSorted scenarioTick2) = [1]"
  by code_simp

theorem tick_order_witness:
  "steps 1 scenarioStart = Inr (projr (steps 1 scenarioStart))
   \<and> \<not> isComplete (projr (steps 1 scenarioStart))
   \<and> map fst (getAislePassengersSorted scenarioTick2) = [1]
   \<and> queue scenarioMid2 = [Some 2]
   \<and> \<not> isAisleOccupied (aircraft scenarioMid2) 0
   \<and> (\<exists>ps. map_of (passengerStates scenarioMid2) 2 = Some ps \<and> state ps = WAITING
         \<and> tryAddFromQueue scenarioMid2 =
              Inr (recordEvent ENTER (passenger ps) NoData
                    (putState 2 (ps\<lparr> state := WALKING, aisleRow := 0,
                                      enteredAt := currentStep scenarioMid2 \<rparr>)
                       (scenarioMid2\<lparr> queue := [],
                            aircraft := placeInAisle (passenger ps) 0 (aircraft scenarioMid2) \<rparr>))))"
proof -
  note inst = tick_order
    [where n = 1 and order = "[1, 2]" and passengers = "[scenarioP1, scenarioP2]"
       and ac = "Aircraft 1 [''A'', ''B'', ''C'', ''D'', ''E'', ''F''] 3 6",
     folded scenarioStart_def, OF scenario_tick1_ok scenario_tick1_running
       scenarioTick2_def scenarioMid2_def]
  from inst scenario_order_ok scenario_mid2_queue
  obtain ps where ps: "map_of (passengerStates scenarioMid2) 2 = Some ps" "state ps = WAITING"
    by blast
  from inst scenario_mid2_queue scenario_mid2_free ps(1)
  have "tryAddFromQueue scenarioMid2 =
              Inr (recordEvent ENTER (passenger ps) NoData
                    (putState 2 (ps\<lparr> state := WALKING, aisleRow := 0,
                                      enteredAt := currentStep scenarioMid2 \<rparr>)
                       (scenarioMid2\<lparr> queue := [],
                            aircraft := placeInAisle (passenger ps) 0 (aircraft scenarioMid2) \<rparr>)))"
    by blast
  with ps scenario_tick1_ok scenario_tick1_running scenario_tick2_order scenario_mid2_queue
    scenario_mid2_free
  show ?thesis by blast
qed

subsection \<open>C10: walk speed and compliance do not matter\<close>

lemma eraseP_fields [simp]:
  "pid (eraseP p) = pid p" "row (eraseP p) = row p" "column (eraseP p) = column p"
  "carryOnSize (eraseP p) = carryOnSize p" "stowTime (eraseP p) = stowTime p"
  by (simp_all add: eraseP_def stowTime_def)

lemma erasePs_fields [simp]:
  "passenger (erasePs ps) = eraseP (passenger ps)" "state (erasePs ps) = state ps"
  "aisleRow (erasePs ps) = aisleRow ps" "stowRemaining (erasePs ps) = stowRemaining ps"
  "shuffleRemaining (erasePs ps) = shuffleRemaining ps" "waitTime (erasePs ps) = waitTime ps"
  "enteredAt (erasePs ps) = enteredAt ps" "seatedAt (erasePs ps) = seatedAt ps"
  by (simp_all add: erasePs_def)

lemma erasePs_updates [simp]:
  "erasePs (ps\<lparr> state := st \<rparr>) = (erasePs ps)\<lparr> state := st \<rparr>"
  "erasePs (ps\<lparr> aisleRow := r \<rparr>) = (erasePs ps)\<lparr> aisleRow := r \<rparr>"
  "erasePs (ps\<lparr> stowRemaining := n \<rparr>) = (erasePs ps)\<lparr> stowRemaining := n \<rparr>"
  "erasePs (ps\<lparr> shuffleRemaining := n \<rparr>) = (erasePs ps)\<lparr> shuffleRemaining := n \<rparr>"
  "erasePs (ps\<lparr> waitTime := n \<rparr>) = (erasePs ps)\<lparr> waitTime := n \<rparr>"
  "erasePs (ps\<lparr> enteredAt := n \<rparr>) = (erasePs ps)\<lparr> enteredAt := n \<rparr>"
  "erasePs (ps\<lparr> seatedAt := n \<rparr>) = (erasePs ps)\<lparr> seatedAt := n \<rparr>"
  by (simp_all add: erasePs_def)

lemma map_of_eraseVals [simp]: "map_of (eraseVals f al) k = map_option f (map_of al k)"
  by (induction al) (auto simp: eraseVals_def)

lemma eraseVals_update [simp]:
  "eraseVals f (AList.update k v al) = AList.update k (f v) (eraseVals f al)"
  by (induction al) (auto simp: eraseVals_def)

lemma eraseVals_keys [simp]: "map fst (eraseVals f al) = map fst al"
  by (simp add: eraseVals_def)

lemma eraseVals_Nil [simp]: "eraseVals f [] = []"
  by (simp add: eraseVals_def)

lemma eraseAc_fields [simp]:
  "rows (eraseAc ac) = rows ac" "columns (eraseAc ac) = columns ac"
  "aislePosition (eraseAc ac) = aislePosition ac"
  "binCapacityPerRow (eraseAc ac) = binCapacityPerRow ac"
  "binCapacity (eraseAc ac) = binCapacity ac"
  "seats (eraseAc ac) = eraseVals (map_option eraseP) (seats ac)"
  "aisle (eraseAc ac) = eraseVals (map_option eraseP) (aisle ac)"
  by (simp_all add: eraseAc_def)

lemma eraseAc_queries [simp]:
  "isAisleOccupied (eraseAc ac) r = isAisleOccupied ac r"
  "isSeatOccupied (eraseAc ac) r c = isSeatOccupied ac r c"
  "hasBinCapacity (eraseAc ac) r sz = hasBinCapacity ac r sz"
  by (auto simp: isAisleOccupied_def isSeatOccupied_def hasBinCapacity_def)

lemma eraseAc_blocking [simp]: "getBlockingSeats (eraseAc ac) r c = getBlockingSeats ac r c"
proof -
  have "isSeatOccupied (eraseAc ac) r = isSeatOccupied ac r" by (rule ext) simp
  then show ?thesis by (simp add: getBlockingSeats_def split: option.splits)
qed

lemma eraseAc_ops:
  "placeInAisle (eraseP p) r (eraseAc ac) = eraseAc (placeInAisle p r ac)"
  "removeFromAisle r (eraseAc ac) = eraseAc (removeFromAisle r ac)"
  "seatPassenger (eraseP p) (eraseAc ac) = eraseAc (seatPassenger p ac)"
  "snd (useBinCapacity r sz (eraseAc ac)) = eraseAc (snd (useBinCapacity r sz ac))"
  by (auto simp: placeInAisle_def removeFromAisle_def seatPassenger_def useBinCapacity_def
      eraseAc_def split: option.splits)

lemma eraseSim_fields [simp]:
  "aircraft (eraseSim s) = eraseAc (aircraft s)"
  "originalPassengers (eraseSim s) = map eraseP (originalPassengers s)"
  "passengerStates (eraseSim s) = eraseVals erasePs (passengerStates s)"
  "currentStep (eraseSim s) = currentStep s" "isComplete (eraseSim s) = isComplete s"
  "events (eraseSim s) = events s" "queue (eraseSim s) = queue s"
  by (simp_all add: eraseSim_def)

lemma eraseSim_blocks:
  "recordEvent t (eraseP p) d (eraseSim s) = eraseSim (recordEvent t p d s)"
  "putState k (erasePs ps) (eraseSim s) = eraseSim (putState k ps s)"
  "(eraseSim s)\<lparr> aircraft := eraseAc ac \<rparr> = eraseSim (s\<lparr> aircraft := ac \<rparr>)"
  "(eraseSim s)\<lparr> queue := q \<rparr> = eraseSim (s\<lparr> queue := q \<rparr>)"
  "(eraseSim s)\<lparr> currentStep := n \<rparr> = eraseSim (s\<lparr> currentStep := n \<rparr>)"
  "(eraseSim s)\<lparr> isComplete := b \<rparr> = eraseSim (s\<lparr> isComplete := b \<rparr>)"
  by (simp_all add: recordEvent_def putState_def eraseSim_def)

lemma erase_startSeating:
  "startSeating k (erasePs ps) (eraseSim s) = eraseSim (startSeating k ps s)"
  by (simp add: startSeating_def Let_def eraseSim_blocks flip: erasePs_updates)

lemma erase_processWalking:
  "processWalking k (erasePs ps) (eraseSim s) = eraseSim (processWalking k ps s)"
  by (simp add: processWalking_def Let_def eraseSim_blocks eraseAc_ops erase_startSeating
      flip: erasePs_updates)

lemma erase_processStowing:
  "processStowing k (erasePs ps) (eraseSim s) = eraseSim (processStowing k ps s)"
  by (simp add: processStowing_def Let_def eraseSim_blocks eraseAc_ops erase_startSeating
      flip: erasePs_updates)

lemma erase_processShuffling:
  "processShuffling k (erasePs ps) (eraseSim s) = eraseSim (processShuffling k ps s)"
  by (simp add: processShuffling_def Let_def eraseSim_blocks flip: erasePs_updates)

lemma erase_processSeating:
  "processSeating k (erasePs ps) (eraseSim s) = eraseSim (processSeating k ps s)"
  by (simp add: processSeating_def Let_def eraseSim_blocks eraseAc_ops flip: erasePs_updates)

lemma erase_process:
  "processPassengerInAisle k (eraseSim s) = eraseSim (processPassengerInAisle k s)"
proof (cases "map_of (passengerStates s) k")
  case None
  then show ?thesis by (simp add: processPassengerInAisle_def)
next
  case (Some ps)
  then show ?thesis
    by (cases "state ps")
      (simp_all add: processPassengerInAisle_def erase_processWalking erase_processStowing
        erase_processShuffling erase_processSeating)
qed

lemma erase_aislePassengers:
  "getAislePassengersSorted (eraseSim s) = eraseVals erasePs (getAislePassengersSorted s)"
proof -
  have f1: "filter (\<lambda>kp. inAisleState (snd kp)) (eraseVals erasePs al)
          = eraseVals erasePs (filter (\<lambda>kp. inAisleState (snd kp)) al)" for al
    by (induction al) (simp_all add: eraseVals_def inAisleState_def)
  have f2: "js_sort (\<lambda>a b. aisleRow (snd b) - aisleRow (snd a)) (eraseVals erasePs xs)
      = eraseVals erasePs (js_sort (\<lambda>a b. aisleRow (snd b) - aisleRow (snd a)) xs)" for xs
    unfolding eraseVals_def by (rule js_sort_map) simp
  show ?thesis
    by (simp only: getAislePassengersSorted_def eraseSim_fields f1 f2)
qed

lemma erase_fold_process:
  "fold (\<lambda>kp. processPassengerInAisle (fst kp)) (eraseVals f kps) (eraseSim s)
     = eraseSim (fold (\<lambda>kp. processPassengerInAisle (fst kp)) kps s)"
  by (induction kps arbitrary: s) (simp_all add: eraseVals_def erase_process)

lemma erase_tryAdd: "tryAddFromQueue (eraseSim s) = map_sum id eraseSim (tryAddFromQueue s)"
  by (simp add: tryAddFromQueue_def eraseSim_blocks eraseAc_ops
      split: list.splits option.splits flip: erasePs_updates)

lemma erase_checkCompletion: "checkCompletion (eraseSim s) = eraseSim (checkCompletion s)"
proof -
  have la: "list_all (\<lambda>kp. state (snd kp) = SEATED) (eraseVals erasePs al)
          = list_all (\<lambda>kp. state (snd kp) = SEATED) al" for al
    by (induction al) (simp_all add: eraseVals_def)
  show ?thesis by (simp add: checkCompletion_def eraseSim_blocks la)
qed

lemma erase_step: "step (eraseSim s) = map_sum id (map_prod id eraseSim) (step s)"
  by (simp add: step_def Let_def eraseSim_blocks erase_aislePassengers erase_fold_process
      erase_tryAdd erase_checkCompletion split: sum.splits)

lemma erase_steps: "steps n (eraseSim s) = map_sum id eraseSim (steps n s)"
proof (induction n arbitrary: s)
  case 0
  then show ?case by simp
next
  case (Suc n)
  show ?case
  proof (cases "step s")
    case (Inl e)
    then show ?thesis by (simp add: erase_step)
  next
    case (Inr bs)
    then show ?thesis by (cases bs) (simp add: erase_step Suc.IH)
  qed
qed

lemma erase_runToCompletion:
  "runToCompletion m (eraseSim s) = map_sum id (map_prod id eraseSim) (runToCompletion m s)"
proof (induction m s rule: runToCompletion.induct)
  case (1 maxSteps s)
  show ?case
  proof (cases "\<not> isComplete s \<and> currentStep s < maxSteps")
    case False
    then show ?thesis
      by (auto simp: runToCompletion.simps [of maxSteps s]
          runToCompletion.simps [of maxSteps "eraseSim s"])
  next
    case True
    show ?thesis
    proof (cases "step s")
      case (Inl e)
      then show ?thesis using True
        by (simp add: runToCompletion.simps [of maxSteps] erase_step)
    next
      case (Inr bs)
      obtain b s' where bs: "bs = (b, s')" by (cases bs)
      have ih: "runToCompletion maxSteps (eraseSim s')
              = map_sum id (map_prod id eraseSim) (runToCompletion maxSteps s')"
        using "1.IH" [OF True Inr bs [symmetric]] .
      have l: "runToCompletion maxSteps (eraseSim s) = runToCompletion maxSteps (eraseSim s')"
        using True Inr bs by (simp add: runToCompletion.simps [of maxSteps "eraseSim s"] erase_step)
      have r: "runToCompletion maxSteps s = runToCompletion maxSteps s'"
        using True Inr bs by (simp add: runToCompletion.simps [of maxSteps s])
      show ?thesis by (simp only: l r ih)
    qed
  qed
qed

lemma erase_fold_const:
  "eraseVals (map_option f) (fold (\<lambda>k. AList.update k None) ks al)
     = fold (\<lambda>k. AList.update k None) ks (eraseVals (map_option f) al)"
  by (induction ks arbitrary: al) simp_all

lemma erase_resetSeats:
  "eraseVals (map_option f) (resetSeats n cols al) = resetSeats n cols (eraseVals (map_option f) al)"
proof -
  have inner: "eraseVals (map_option f) (fold (\<lambda>c. AList.update (r, c) None) cols al)
     = fold (\<lambda>c. AList.update (r, c) None) cols (eraseVals (map_option f) al)" for r al
    by (induction cols arbitrary: al) simp_all
  have "eraseVals (map_option f) (fold (\<lambda>r acc. fold (\<lambda>c. AList.update (r, c) None) cols acc) rs al)
     = fold (\<lambda>r acc. fold (\<lambda>c. AList.update (r, c) None) cols acc) rs (eraseVals (map_option f) al)"
    for rs
    by (induction rs arbitrary: al) (simp_all add: inner)
  then show ?thesis by (simp add: resetSeats_def)
qed

lemma erase_aircraft_reset: "eraseAc (aircraft_reset ac) = aircraft_reset (eraseAc ac)"
  by (simp add: aircraft_reset_def eraseAc_def erase_resetSeats resetAisle_def erase_fold_const)

lemma erase_initial_states:
  "eraseVals erasePs (fold (\<lambda>p. AList.update (pid p) (initialState p)) ps al)
     = fold (\<lambda>p. AList.update (pid p) (initialState p)) (map eraseP ps) (eraseVals erasePs al)"
proof (induction ps arbitrary: al)
  case Nil
  then show ?case by simp
next
  case (Cons p ps)
  have "erasePs (initialState p) = initialState (eraseP p)"
    by (simp add: erasePs_def initialState_def)
  then show ?case by (simp add: Cons.IH)
qed

lemma erase_init:
  "eraseSim (setBoardingOrder order (Simulation ps ac))
     = setBoardingOrder order (Simulation (map eraseP ps) (eraseAc ac))"
proof -
  have mo: "map_option (\<lambda>_. i) (map_option erasePs x) = map_option (\<lambda>_. i) x" for i :: int and x
    by (cases x) simp_all
  have ps_eq: "fold (\<lambda>p. AList.update (pid p) (initialState p)) (map eraseP ps) []
      = eraseVals erasePs (fold (\<lambda>p. AList.update (pid p) (initialState p)) ps [])"
    using erase_initial_states [of ps "[]"] by simp
  show ?thesis
    by (simp add: setBoardingOrder_def Simulation_def reset_def eraseSim_def
        erase_aircraft_reset ps_eq mo)
qed

lemma length_eraseVals [simp]: "length (eraseVals f al) = length al"
  by (simp add: eraseVals_def)

lemma erase_snapshot: "getSnapshot (eraseSim s) = getSnapshot s"
proof -
  have e: "snapshotEntryOf (erasePs ps) = snapshotEntryOf ps" for ps
    by (simp add: snapshotEntryOf_def)
  have a: "map snd (eraseVals erasePs al) = map erasePs (map snd al)" for al
    by (simp add: eraseVals_def)
  have b: "map snapshotEntryOf (filter P (map erasePs xs))
          = map snapshotEntryOf (filter (\<lambda>ps. P (erasePs ps)) xs)" for P xs
    by (induction xs) (simp_all add: e)
  show ?thesis
    unfolding getSnapshot_def Let_def eraseSim_fields a b by simp
qed

lemma eraseP_eq: "eraseP p = eraseP p' \<longleftrightarrow> sameBoardingData p p'"
  by (cases p; cases p') (auto simp: eraseP_def sameBoardingData_def)

lemma erase_lists: "list_all2 sameBoardingData ps ps' \<Longrightarrow> map eraseP ps = map eraseP ps'"
  by (induction rule: list_all2_induct) (simp_all add: eraseP_eq)

lemma process_advance:
  assumes "map_of (passengerStates s) k' = Some q"
  shows "\<exists>q'. map_of (passengerStates (processPassengerInAisle k s)) k' = Some q'
            \<and> aisleRow q' \<le> aisleRow q + (if k' = k then 1 else 0)"
proof (rule process_cases [of k s])
  assume "processPassengerInAisle k s = s"
  then show ?thesis using assms by simp
next
  fix ps assume ps: "map_of (passengerStates s) k = Some ps"
    and eff: "effectOf s k ps (processPassengerInAisle k s)"
  show ?thesis
  proof (cases "k' = k")
    case True
    then show ?thesis using eff ps assms by (auto simp: effectOf_def update_conv')
  next
    case False
    then show ?thesis using assms by (simp add: process_other)
  qed
qed

lemma fold_process_advance:
  assumes "distinct (map fst kps)" "map_of (passengerStates s) k = Some q"
  shows "\<exists>q'. map_of (passengerStates (fold (\<lambda>kp. processPassengerInAisle (fst kp)) kps s)) k
                 = Some q'
            \<and> aisleRow q' \<le> aisleRow q + (if k \<in> fst ` set kps then 1 else 0)"
  using assms
proof (induction kps arbitrary: s q)
  case Nil
  then show ?case by simp
next
  case (Cons kp kps)
  from process_advance [OF Cons.prems(2), of "fst kp"] obtain q1
    where q1: "map_of (passengerStates (processPassengerInAisle (fst kp) s)) k = Some q1"
      "aisleRow q1 \<le> aisleRow q + (if k = fst kp then 1 else 0)" by blast
  from Cons.prems(1) have d: "distinct (map fst kps)" "fst kp \<notin> fst ` set kps" by auto
  from Cons.IH [OF d(1) q1(1)] obtain q'
    where q': "map_of (passengerStates (fold (\<lambda>kp. processPassengerInAisle (fst kp)) kps
                 (processPassengerInAisle (fst kp) s))) k = Some q'"
      "aisleRow q' \<le> aisleRow q1 + (if k \<in> fst ` set kps then 1 else 0)" by blast
  have "aisleRow q' \<le> aisleRow q + (if k \<in> fst ` set (kp # kps) then 1 else 0)"
    using q1(2) q'(2) d(2) by (auto split: if_splits)
  with q'(1) show ?case by simp
qed

lemma aislePassengers_distinct:
  assumes "simInv s"
  shows "distinct (map fst (getAislePassengersSorted s))"
proof -
  have "distinct (map fst (filter (\<lambda>kp. inAisleState (snd kp)) (passengerStates s)))"
    using assms by (simp add: simInv_def distinct_map_filter)
  then show ?thesis
    unfolding getAislePassengersSorted_def by (simp add: distinct_map)
qed

lemma tryAdd_advance:
  assumes "tryAddFromQueue s = Inr s'" "map_of (passengerStates s) k = Some q"
  shows "\<exists>q'. map_of (passengerStates s') k = Some q' \<and> (aisleRow q' = aisleRow q \<or> aisleRow q' = 0)"
  using assms
  by (auto simp: tryAddFromQueue_def update_conv' split: list.splits if_splits option.splits)

lemma step_advance:
  assumes inv: "simInv s" and st: "step s = Inr (b, s')"
    and q: "map_of (passengerStates s) k = Some q" and w: "state q = WALKING"
  shows "\<exists>q'. map_of (passengerStates s') k = Some q' \<and> aisleRow q' \<le> aisleRow q + 1"
proof (cases "isComplete s")
  case True
  then show ?thesis using st q by (simp add: step_def)
next
  case False
  let ?s1 = "s\<lparr> currentStep := currentStep s + 1 \<rparr>"
  let ?s2 = "fold (\<lambda>kp. processPassengerInAisle (fst kp)) (getAislePassengersSorted ?s1) ?s1"
  from st False obtain s3 where s3: "tryAddFromQueue ?s2 = Inr s3" and s': "s' = checkCompletion s3"
    by (auto simp: step_def Let_def split: sum.splits)
  have "simInv ?s1" using inv by (rule simInv_tick)
  then have d: "distinct (map fst (getAislePassengersSorted ?s1))" by (rule aislePassengers_distinct)
  have q1: "map_of (passengerStates ?s1) k = Some q" using q by simp
  from fold_process_advance [OF d q1] obtain q2
    where q2: "map_of (passengerStates ?s2) k = Some q2" "aisleRow q2 \<le> aisleRow q + 1"
    by (auto split: if_splits)
  from tryAdd_advance [OF s3 q2(1)] obtain q3
    where q3: "map_of (passengerStates s3) k = Some q3" "aisleRow q3 = aisleRow q2 \<or> aisleRow q3 = 0"
    by blast
  have "0 \<le> aisleRow q" using simInvD(2) [OF inv q] w by (simp add: inAisle_def)
  then have "aisleRow q3 \<le> aisleRow q + 1" using q2(2) q3(2) by auto
  then show ?thesis using q3(1) by (simp add: s' checkCompletion_def)
qed

text \<open>
  C10.  Two passenger lists that agree, position by position, on id, seat and carry-on
  size give, for the same layout and boarding order, the same event log and the same
  snapshot after every number of ticks, and the same result of the run-to-completion
  driver (also when a run fails).  And in every reachable state a WALKING passenger stands
  at most one cell further after the next tick.
\<close>

theorem speed_compliance_independent:
  assumes same: "list_all2 sameBoardingData ps ps'"
  shows "map_sum id events (steps n (setBoardingOrder order (Simulation ps ac)))
           = map_sum id events (steps n (setBoardingOrder order (Simulation ps' ac)))
       \<and> map_sum id getSnapshot (steps n (setBoardingOrder order (Simulation ps ac)))
           = map_sum id getSnapshot (steps n (setBoardingOrder order (Simulation ps' ac)))
       \<and> map_sum id fst (runToCompletion m (setBoardingOrder order (Simulation ps ac)))
           = map_sum id fst (runToCompletion m (setBoardingOrder order (Simulation ps' ac)))
       \<and> (\<forall>s b s' k q. steps n (setBoardingOrder order (Simulation ps ac)) = Inr s
              \<and> step s = Inr (b, s') \<and> map_of (passengerStates s) k = Some q
              \<and> state q = WALKING \<longrightarrow>
            (\<exists>q'. map_of (passengerStates s') k = Some q' \<and> aisleRow q' \<le> aisleRow q + 1))"
proof -
  let ?i = "setBoardingOrder order (Simulation ps ac)"
  let ?i' = "setBoardingOrder order (Simulation ps' ac)"
  have init: "eraseSim ?i = eraseSim ?i'"
    using erase_lists [OF same] by (simp add: erase_init)
  have st: "map_sum id eraseSim (steps n ?i) = map_sum id eraseSim (steps n ?i')"
    using init by (simp add: erase_steps [symmetric])
  have ev: "map_sum id events x = map_sum id events (map_sum id eraseSim x)" for x :: "error + sim"
    by (cases x) simp_all
  have sn: "map_sum id getSnapshot x = map_sum id getSnapshot (map_sum id eraseSim x)"
    for x :: "error + sim"
    by (cases x) (simp_all add: erase_snapshot)
  have a: "map_sum id events (steps n ?i) = map_sum id events (steps n ?i')"
    using ev [of "steps n ?i"] ev [of "steps n ?i'"] st by simp
  have b: "map_sum id getSnapshot (steps n ?i) = map_sum id getSnapshot (steps n ?i')"
    using sn [of "steps n ?i"] sn [of "steps n ?i'"] st by simp
  have rc: "map_sum id (map_prod id eraseSim) (runToCompletion m ?i)
          = map_sum id (map_prod id eraseSim) (runToCompletion m ?i')"
    using init by (simp add: erase_runToCompletion [symmetric])
  have fs: "map_sum id fst x = map_sum id fst (map_sum id (map_prod id eraseSim) x)"
    for x :: "error + (int \<times> sim)"
    by (cases x) auto
  have c: "map_sum id fst (runToCompletion m ?i) = map_sum id fst (runToCompletion m ?i')"
    using fs [of "runToCompletion m ?i"] fs [of "runToCompletion m ?i'"] rc by simp
  have d: "\<exists>q'. map_of (passengerStates s') k = Some q' \<and> aisleRow q' \<le> aisleRow q + 1"
    if "steps n ?i = Inr s" "step s = Inr (b, s')" "map_of (passengerStates s) k = Some q"
      "state q = WALKING" for s b s' k q
  proof -
    have "simInv s" using simInv_Simulation that(1) by (rule simInv_steps)
    then show ?thesis using that(2,3,4) by (rule step_advance)
  qed
  from a b c d show ?thesis by blast
qed

lemma slow_fast_same: "list_all2 sameBoardingData [scenarioP1, scenarioP2] [slowP1, fastP2]"
  by (simp add: sameBoardingData_def scenarioP1_def scenarioP2_def slowP1_def fastP2_def)

theorem speed_compliance_independent_witness:
  "list_all2 sameBoardingData [scenarioP1, scenarioP2] [slowP1, fastP2]
   \<and> map_sum id events
       (steps 6 (setBoardingOrder [1, 2]
          (Simulation [slowP1, fastP2] (Aircraft 1 [''A'', ''B'', ''C'', ''D'', ''E'', ''F''] 3 6))))
       = map_sum id events (steps 6 scenarioStart)
   \<and> map_sum id fst
       (runToCompletion 10000 (setBoardingOrder [1, 2]
          (Simulation [slowP1, fastP2] (Aircraft 1 [''A'', ''B'', ''C'', ''D'', ''E'', ''F''] 3 6))))
       = Inr 6"
  using speed_compliance_independent
    [OF slow_fast_same, of 6 "[1, 2]" "Aircraft 1 [''A'', ''B'', ''C'', ''D'', ''E'', ''F''] 3 6" 10000,
     folded scenarioStart_def]
    slow_fast_same scenario_run
  by simp

subsection \<open>C8: validation of a priority function\<close>

lemma sampleLoop_bad:
  assumes "p \<in> set ps" "\<And>st. badResult (fst (f p ctx st))"
  shows "fst (sampleLoop f ctx now j st ps) \<noteq> []"
  using assms(1)
proof (induction ps arbitrary: j st)
  case Nil
  then show ?case by simp
next
  case (Cons a ps)
  obtain r st' where r: "f a ctx st = (r, st')" by (cases "f a ctx st")
  show ?case
  proof (cases "a = p")
    case True
    then have "badResult r" using assms(2) [of st] r by simp
    then show ?thesis using r by (auto simp: badResult_def split: callResult.splits)
  next
    case False
    then have "p \<in> set ps" using Cons.prems by simp
    from Cons.IH [OF this] show ?thesis using r
      by (auto split: callResult.splits)
  qed
qed

text \<open>
  In the sample loop every call sits in a try/catch: a passenger of the sample for which
  the function throws, or returns NaN, an infinity or a value that is not a number, makes
  \<open>validateAlgorithm\<close> return a failure with at least one error message.
\<close>

lemma validate_rejects:
  assumes "p \<in> set ps" "\<And>st. badResult (fst (f p ctx st))"
  shows "\<exists>es. es \<noteq> [] \<and> validateAlgorithm (Some f) ps ctx now st = Inr (failure es [])"
proof -
  obtain es st1 where e: "sampleLoop f ctx now 0 st ps = (es, st1)"
    by (cases "sampleLoop f ctx now 0 st ps")
  with sampleLoop_bad [where f = f and p = p and ctx = ctx and ps = ps, OF assms, of now 0 st]
  have "es \<noteq> []" by simp
  then show ?thesis using e by (cases es) (auto simp: validateAlgorithm_def)
qed

lemma validate_rejects_nan: "validateAlgorithm (Some nanPriority) (map toContext samplePassengers) sampleContext (\<lambda>_. 0) ()
   = Inr (failure [''Priority function returned NaN''] [])"
  by (simp add: validateAlgorithm_def nanPriority_def samplePassengers_def toContext_def)

text \<open>
  C8. The claim says that every exception thrown while the priority function is evaluated
  is caught and converted into a failure result. The determinism loop of
  \<open>validateAlgorithm\<close> calls the function outside any try/catch: a function
  that returns a finite number on its first call and throws afterwards (a one-passenger
  sample) passes the sample loop, and its exception leaves \<open>validateAlgorithm\<close>;
  only \<open>Algorithm.validate\<close>, which wraps the call, turns it into a failure.
\<close>

theorem validate_determinism_loop_throws:
  "validateAlgorithm (Some flakyPriority) [toContext scenarioP1] sampleContext (\<lambda>_. 0) 0
     = Inl ''boom''
   \<and> algorithmValidate (Inr flakyPriority) [toContext scenarioP1] sampleContext (\<lambda>_. 0) 0
     = failure [''boom''] []"
  by (simp add: algorithmValidate_def validateAlgorithm_def flakyPriority_def strictEq_def)

subsection \<open>C9: the fitness of a genome\<close>

lemma map_of_key: "map_of al k = Some v \<Longrightarrow> k \<in> fst ` set al"
  by (induction al) (auto split: if_splits)

lemma set_update_subset: "set (AList.update k v al) \<subseteq> insert (k, v) (set al)"
  by (induction al) auto

lemma update_const_map:
  "k \<in> fst ` set al \<Longrightarrow> distinct (map fst al) \<Longrightarrow>
   AList.update k c al = map (\<lambda>kv. (fst kv, if fst kv = k then c else snd kv)) al"
proof (induction al)
  case Nil
  then show ?case by simp
next
  case (Cons a al)
  show ?case
  proof (cases "fst a = k")
    case True
    then have "k \<notin> fst ` set al" using Cons.prems(2) by auto
    then have "map (\<lambda>kv. (fst kv, if fst kv = k then c else snd kv)) al = al"
      by (intro map_idI) auto
    then show ?thesis using True by (cases a) simp
  next
    case False
    then have "k \<in> fst ` set al" using Cons.prems(1) by auto
    from Cons.IH [OF this] Cons.prems(2) False show ?thesis by (cases a) simp
  qed
qed

lemma keys_fold_update:
  "fst ` set (fold (\<lambda>k. AList.update k c) ks m) = set ks \<union> fst ` set m"
  by (induction ks arbitrary: m) (auto simp: dom_update)

lemma fold_update_const_map:
  "set ks \<subseteq> fst ` set al \<Longrightarrow> distinct (map fst al) \<Longrightarrow>
   fold (\<lambda>k. AList.update k c) ks al
     = map (\<lambda>kv. (fst kv, if fst kv \<in> set ks then c else snd kv)) al"
proof (induction ks arbitrary: al)
  case Nil
  then show ?case by simp
next
  case (Cons k ks)
  have k: "k \<in> fst ` set al" using Cons.prems(1) by simp
  have u: "AList.update k c al = map (\<lambda>kv. (fst kv, if fst kv = k then c else snd kv)) al"
    using update_const_map [OF k Cons.prems(2)] .
  have d: "distinct (map fst (AList.update k c al))" using Cons.prems(2) by (simp add: distinct_update)
  have s: "set ks \<subseteq> fst ` set (AList.update k c al)"
    using Cons.prems(1) by (auto simp: dom_update)
  have "fold (\<lambda>k. AList.update k c) (k # ks) al
        = map (\<lambda>kv. (fst kv, if fst kv \<in> set ks then c else snd kv)) (AList.update k c al)"
    using Cons.IH [OF s d] by simp
  also have "\<dots> = map (\<lambda>kv. (fst kv, if fst kv \<in> set (k # ks) then c else snd kv)) al"
    unfolding u by auto
  finally show ?case .
qed

lemma values_fold_update:
  "\<forall>kv\<in>set m. snd kv = c \<Longrightarrow> \<forall>kv\<in>set (fold (\<lambda>k. AList.update k c) ks m). snd kv = c"
proof (induction ks arbitrary: m)
  case Nil
  then show ?case by simp
next
  case (Cons k ks)
  have "\<forall>kv\<in>set (AList.update k c m). snd kv = c"
    using Cons.prems set_update_subset [of k c m] by auto
  from Cons.IH [OF this] show ?case by simp
qed

lemma fold_update_again:
  assumes "map fst al = map fst (fold (\<lambda>k. AList.update k c) ks [])"
  shows "fold (\<lambda>k. AList.update k c) ks al = fold (\<lambda>k. AList.update k c) ks []"
proof -
  let ?K = "fold (\<lambda>k. AList.update k c) ks []"
  have dK: "distinct (map fst ?K)"
    using distinct_fold_update [where f = "\<lambda>k. k" and g = "\<lambda>_. c" and m = "[]" and ps = ks]
    by simp
  have kK: "fst ` set ?K = set ks" by (simp add: keys_fold_update)
  have d: "distinct (map fst al)" using dK assms by simp
  have "set (map fst al) = set (map fst ?K)" using assms by simp
  then have k: "fst ` set al = set ks" using kK by simp
  have "fold (\<lambda>k. AList.update k c) ks al
        = map (\<lambda>kv. (fst kv, if fst kv \<in> set ks then c else snd kv)) al"
    using k d by (intro fold_update_const_map) simp_all
  also have "\<dots> = map (\<lambda>kv. (fst kv, c)) al" using k by (intro map_cong) auto
  also have "\<dots> = map (\<lambda>k. (k, c)) (map fst al)" by simp
  also have "\<dots> = map (\<lambda>k. (k, c)) (map fst ?K)" using assms by simp
  also have "\<dots> = map (\<lambda>kv. (fst kv, c)) ?K" by simp
  also have "\<dots> = ?K" using values_fold_update [of "[]" c ks] by (intro map_idI) auto
  finally show ?thesis .
qed

lemma resetSeats_flat:
  "resetSeats n cols m = fold (\<lambda>k. AList.update k None) (allSeats n cols) m"
proof -
  have "fold (\<lambda>r acc. fold (\<lambda>c. AList.update (r, c) None) cols acc) rs m
        = fold (\<lambda>k. AList.update k None) (concat (map (\<lambda>r. map (Pair r) cols) rs)) m" for rs
    by (induction rs arbitrary: m) (simp_all add: fold_map comp_def)
  then show ?thesis by (simp add: resetSeats_def allSeats_def)
qed

lemma seat_keys_Aircraft: "fst ` set (seats (Aircraft n cols ap cap)) = set (allSeats n cols)"
  by (simp add: Aircraft_def resetSeats_flat keys_fold_update)

lemma reset_fresh:
  assumes "layoutOk ac"
  shows "aircraft_reset ac = freshLayout ac"
proof -
  from assms have
    b: "map fst (binCapacity ac) = map fst (resetBins (rows ac) (binCapacityPerRow ac) [])" and
    s: "map fst (seats ac) = map fst (resetSeats (rows ac) (columns ac) [])" and
    a: "map fst (aisle ac) = map fst (resetAisle (rows ac) [])"
    by (simp_all add: layoutOk_def shape_def freshLayout_def Aircraft_def)
  have "resetBins (rows ac) (binCapacityPerRow ac) (binCapacity ac)
        = resetBins (rows ac) (binCapacityPerRow ac) []"
    using b unfolding resetBins_def by (rule fold_update_again)
  moreover have "resetSeats (rows ac) (columns ac) (seats ac) = resetSeats (rows ac) (columns ac) []"
    using s unfolding resetSeats_flat by (rule fold_update_again)
  moreover have "resetAisle (rows ac) (aisle ac) = resetAisle (rows ac) []"
    using a unfolding resetAisle_def by (rule fold_update_again)
  ultimately show ?thesis
    by (cases ac) (simp add: aircraft_reset_def freshLayout_def Aircraft_def)
qed

lemma freshLayout_shape: "shape ac' = shape ac \<Longrightarrow> freshLayout ac' = freshLayout ac"
  by (simp add: shape_def freshLayout_def)

lemma layoutOk_fresh: "layoutOk (freshLayout ac)"
  by (simp add: layoutOk_def freshLayout_def Aircraft_def)

lemma layoutOk_shape: "shape ac' = shape ac \<Longrightarrow> layoutOk ac \<Longrightarrow> layoutOk ac'"
  using freshLayout_shape [of ac' ac] by (simp add: layoutOk_def)

lemma Simulation_fresh:
  assumes "layoutOk ac"
  shows "Simulation ps ac = Simulation ps (freshLayout ac)"
proof -
  have "aircraft_reset (freshLayout ac) = freshLayout (freshLayout ac)"
    using layoutOk_fresh by (rule reset_fresh)
  also have "\<dots> = freshLayout ac" by (simp add: freshLayout_def Aircraft_def)
  finally show ?thesis using reset_fresh [OF assms] by (simp add: Simulation_def reset_def)
qed

lemma shape_keys:
  "shape ac' = shape ac \<Longrightarrow> fst ` set (seats ac') = fst ` set (seats ac)"
  "shape ac' = shape ac \<Longrightarrow> fst ` set (aisle ac') = fst ` set (aisle ac)"
proof -
  assume "shape ac' = shape ac"
  then have "set (map fst (seats ac')) = set (map fst (seats ac))"
    "set (map fst (aisle ac')) = set (map fst (aisle ac))" by (simp_all add: shape_def)
  then show "fst ` set (seats ac') = fst ` set (seats ac)"
    "fst ` set (aisle ac') = fst ` set (aisle ac)" by simp_all
qed

lemma shape_ops:
  "r \<in> fst ` set (aisle ac) \<Longrightarrow> shape (placeInAisle p r ac) = shape ac"
  "r \<in> fst ` set (aisle ac) \<Longrightarrow> shape (removeFromAisle r ac) = shape ac"
  "(row p, column p) \<in> fst ` set (seats ac) \<Longrightarrow> shape (seatPassenger p ac) = shape ac"
  "shape (snd (useBinCapacity r sz ac)) = shape ac"
  by (auto simp: shape_def placeInAisle_def removeFromAisle_def seatPassenger_def
      useBinCapacity_def update_keys split: option.splits dest: map_of_key)

lemma shape_startSeating: "shape (aircraft (startSeating k ps s)) = shape (aircraft s)"
  by (simp add: startSeating_def Let_def)

lemma shape_processWalking:
  assumes inv: "simInv s" and cur: "map_of (passengerStates s) k = Some ps" and st: "state ps = WALKING"
  shows "shape (aircraft (processWalking k ps s)) = shape (aircraft s)"
proof -
  have a: "inAisle ps" using st by (simp add: inAisle_def)
  have here: "aisleRow ps \<in> fst ` set (aisle (aircraft s))"
    using simInvD(3) [OF inv cur a] by (rule map_of_key)
  have move: "shape (placeInAisle p (aisleRow ps + 1) (removeFromAisle (aisleRow ps) (aircraft s)))
              = shape (aircraft s)"
    if "\<not> isAisleOccupied (aircraft s) (aisleRow ps + 1)" for p
  proof -
    from that have "map_of (aisle (aircraft s)) (aisleRow ps + 1) = Some None"
      by (simp add: isAisleOccupied_def)
    then have "aisleRow ps + 1 \<in> fst ` set (aisle (aircraft s))" by (rule map_of_key)
    then have "aisleRow ps + 1 \<in> fst ` set (aisle (removeFromAisle (aisleRow ps) (aircraft s)))"
      using shape_keys(2) [OF shape_ops(2) [OF here]] by simp
    then show ?thesis using shape_ops(2) [OF here] by (simp add: shape_ops(1))
  qed
  show ?thesis
    by (simp add: processWalking_def Let_def shape_startSeating move)
qed

lemma shape_processStowing:
  "shape (aircraft (processStowing k ps s)) = shape (aircraft s)"
  by (simp add: processStowing_def Let_def shape_startSeating shape_ops(4))

lemma shape_processShuffling:
  "shape (aircraft (processShuffling k ps s)) = shape (aircraft s)"
  by (simp add: processShuffling_def Let_def)

lemma shape_processSeating:
  assumes inv: "simInv s" and cur: "map_of (passengerStates s) k = Some ps" and st: "state ps = SEATING"
    and seats: "seatsIn s"
  shows "shape (aircraft (processSeating k ps s)) = shape (aircraft s)"
proof -
  have a: "inAisle ps" using st by (simp add: inAisle_def)
  have here: "aisleRow ps \<in> fst ` set (aisle (aircraft s))"
    using simInvD(3) [OF inv cur a] by (rule map_of_key)
  have "(row (passenger ps), column (passenger ps)) \<in> fst ` set (seats (aircraft s))"
    using seats simInvD(5) [OF inv cur] by (simp add: seatsIn_def)
  then have "(row (passenger ps), column (passenger ps))
               \<in> fst ` set (seats (removeFromAisle (aisleRow ps) (aircraft s)))"
    using shape_keys(1) [OF shape_ops(2) [OF here]] by simp
  then show ?thesis using shape_ops(2) [OF here] by (simp add: processSeating_def shape_ops(3))
qed

lemma shape_process:
  assumes "simInv s" "seatsIn s"
  shows "shape (aircraft (processPassengerInAisle k s)) = shape (aircraft s)"
proof (cases "map_of (passengerStates s) k")
  case None
  then show ?thesis by (simp add: processPassengerInAisle_def)
next
  case (Some ps)
  show ?thesis
  proof (cases "state ps")
    case WALKING
    then show ?thesis using Some shape_processWalking [OF assms(1) Some]
      by (simp add: processPassengerInAisle_def)
  next
    case STOWING
    then show ?thesis using Some by (simp add: processPassengerInAisle_def shape_processStowing)
  next
    case SHUFFLING
    then show ?thesis using Some by (simp add: processPassengerInAisle_def shape_processShuffling)
  next
    case SEATING
    then show ?thesis using Some shape_processSeating [OF assms(1) Some _ assms(2)]
      by (simp add: processPassengerInAisle_def)
  qed (use Some in \<open>simp_all add: processPassengerInAisle_def\<close>)
qed

lemma seatsIn_shape:
  "shape (aircraft s') = shape (aircraft s) \<Longrightarrow> originalPassengers s' = originalPassengers s \<Longrightarrow>
   seatsIn s \<Longrightarrow> seatsIn s'"
  using shape_keys(1) [of "aircraft s'" "aircraft s"] by (simp add: seatsIn_def)

lemma queueOk_keys:
  "map fst (passengerStates s') = map fst (passengerStates s) \<Longrightarrow> queue s' = queue s \<Longrightarrow>
   queueOk s \<Longrightarrow> queueOk s'"
proof -
  assume "map fst (passengerStates s') = map fst (passengerStates s)" and q: "queue s' = queue s"
    and ok: "queueOk s"
  then have "set (map fst (passengerStates s')) = set (map fst (passengerStates s))" by simp
  then have "fst ` set (passengerStates s') = fst ` set (passengerStates s)" by simp
  then show "queueOk s'" using ok q by (simp add: queueOk_def)
qed

lemma runInv_process:
  assumes "runInv s"
  shows "runInv (processPassengerInAisle k s)"
    and "shape (aircraft (processPassengerInAisle k s)) = shape (aircraft s)"
proof -
  from assms have i: "simInv s" "seatsIn s" "queueOk s" by (simp_all add: runInv_def)
  show sh: "shape (aircraft (processPassengerInAisle k s)) = shape (aircraft s)"
    using i(1,2) by (rule shape_process)
  have "simInv (processPassengerInAisle k s)" using i(1) by (rule simInv_processPassengerInAisle)
  moreover have "seatsIn (processPassengerInAisle k s)"
    using sh _ i(2) by (rule seatsIn_shape) simp
  moreover have "queueOk (processPassengerInAisle k s)"
    using process_keys _ i(3) by (rule queueOk_keys) simp
  ultimately show "runInv (processPassengerInAisle k s)" by (simp add: runInv_def)
qed

lemma runInv_fold_process:
  "runInv s \<Longrightarrow>
   runInv (fold (\<lambda>kp. processPassengerInAisle (fst kp)) kps s)
   \<and> shape (aircraft (fold (\<lambda>kp. processPassengerInAisle (fst kp)) kps s)) = shape (aircraft s)"
proof (induction kps arbitrary: s)
  case Nil
  then show ?case by simp
next
  case (Cons kp kps)
  from Cons.IH [OF runInv_process(1) [OF Cons.prems, of "fst kp"]]
    runInv_process(2) [OF Cons.prems, of "fst kp"]
  show ?case by simp
qed

lemma runInv_tryAdd:
  assumes "runInv s"
  shows "\<exists>s'. tryAddFromQueue s = Inr s' \<and> runInv s' \<and> shape (aircraft s') = shape (aircraft s)"
proof (cases "queue s = [] \<or> isAisleOccupied (aircraft s) 0")
  case True
  then have "tryAddFromQueue s = Inr s"
    by (auto simp: tryAddFromQueue_def split: list.splits)
  then show ?thesis using assms by simp
next
  case False
  from assms have i: "simInv s" "seatsIn s" "queueOk s" by (simp_all add: runInv_def)
  from False obtain q rest where qr: "queue s = q # rest" by (cases "queue s") auto
  from i(3) qr obtain k where k: "q = Some k" "k \<in> fst ` set (passengerStates s)"
    by (auto simp: queueOk_def)
  from k(2) have "k \<in> dom (map_of (passengerStates s))" by (simp only: dom_map_of_conv_image_fst)
  then obtain ps where ps: "map_of (passengerStates s) k = Some ps" by blast
  let ?s' = "recordEvent ENTER (passenger ps) NoData
               (putState k (ps\<lparr> state := WALKING, aisleRow := 0, enteredAt := currentStep s \<rparr>)
                  (s\<lparr> queue := rest, aircraft := placeInAisle (passenger ps) 0 (aircraft s) \<rparr>))"
  have t: "tryAddFromQueue s = Inr ?s'"
    using False qr k(1) ps by (simp add: tryAddFromQueue_def)
  have "map_of (aisle (aircraft s)) 0 = Some None" using False by (simp add: isAisleOccupied_def)
  then have "0 \<in> fst ` set (aisle (aircraft s))" by (rule map_of_key)
  then have sh: "shape (aircraft ?s') = shape (aircraft s)" by (simp add: shape_ops(1))
  have "simInv ?s'" using i(1) t by (rule simInv_tryAddFromQueue)
  moreover have "seatsIn ?s'" using sh _ i(2) by (rule seatsIn_shape) simp
  moreover have "queueOk ?s'"
    using i(3) qr k(2) by (auto simp: queueOk_def putState_def dom_update)
  ultimately show ?thesis using t sh by (simp add: runInv_def)
qed

lemma runInv_frame:
  "runInv s \<Longrightarrow> runInv (s\<lparr> currentStep := n \<rparr>)"
  "runInv s \<Longrightarrow> runInv (checkCompletion s)"
proof -
  assume r: "runInv s"
  then have "simInv (s\<lparr> currentStep := n \<rparr>)" by (simp add: runInv_def simInv_tick)
  then show "runInv (s\<lparr> currentStep := n \<rparr>)"
    using r by (simp add: runInv_def seatsIn_def queueOk_def)
next
  assume r: "runInv s"
  then have "simInv (checkCompletion s)" by (simp add: runInv_def simInv_checkCompletion)
  moreover have "seatsIn (checkCompletion s)" "queueOk (checkCompletion s)"
    using r by (simp_all add: runInv_def seatsIn_def queueOk_def checkCompletion_def)
  ultimately show "runInv (checkCompletion s)" by (simp add: runInv_def)
qed

lemma runInv_step:
  assumes "runInv s"
  shows "\<exists>b s'. step s = Inr (b, s') \<and> runInv s' \<and> shape (aircraft s') = shape (aircraft s)"
proof (cases "isComplete s")
  case True
  then have "step s = Inr (False, s)" by (simp add: step_def)
  then show ?thesis using assms by blast
next
  case False
  let ?s1 = "s\<lparr> currentStep := currentStep s + 1 \<rparr>"
  let ?s2 = "fold (\<lambda>kp. processPassengerInAisle (fst kp)) (getAislePassengersSorted ?s1) ?s1"
  have "runInv ?s1" using assms by (rule runInv_frame)
  from runInv_fold_process [OF this, of "getAislePassengersSorted ?s1"]
  have s2: "runInv ?s2" "shape (aircraft ?s2) = shape (aircraft s)" by simp_all
  from runInv_tryAdd [OF s2(1)] obtain s3 where
    s3: "tryAddFromQueue ?s2 = Inr s3" "runInv s3" "shape (aircraft s3) = shape (aircraft ?s2)"
    by blast
  have "step s = Inr (\<not> isComplete (checkCompletion s3), checkCompletion s3)"
    using False s3(1) by (simp add: step_def Let_def)
  moreover have "runInv (checkCompletion s3)" using s3(2) by (rule runInv_frame)
  moreover have "shape (aircraft (checkCompletion s3)) = shape (aircraft s)"
    using s3(3) s2(2) by (simp add: checkCompletion_def)
  ultimately show ?thesis by blast
qed

lemma runInv_runToCompletion:
  "runInv s \<Longrightarrow>
   \<exists>n s'. runToCompletion m s = Inr (n, s') \<and> runInv s' \<and> shape (aircraft s') = shape (aircraft s)"
proof (induction m s rule: runToCompletion.induct)
  case (1 maxSteps s)
  show ?case
  proof (cases "\<not> isComplete s \<and> currentStep s < maxSteps")
    case False
    then have "runToCompletion maxSteps s = Inr (currentStep s, s)"
      by (auto simp: runToCompletion.simps [of maxSteps s])
    then show ?thesis using "1.prems" by simp
  next
    case True
    from runInv_step [OF "1.prems"] obtain b s1 where
      s1: "step s = Inr (b, s1)" "runInv s1" "shape (aircraft s1) = shape (aircraft s)" by blast
    from "1.IH" [OF True s1(1) refl s1(2)] obtain n s' where
      r: "runToCompletion maxSteps s1 = Inr (n, s')" "runInv s'"
         "shape (aircraft s') = shape (aircraft s1)" by blast
    have "runToCompletion maxSteps s = runToCompletion maxSteps s1"
      using True s1(1) by (simp add: runToCompletion.simps [of maxSteps s])
    then show ?thesis using r s1(3) by simp
  qed
qed

lemma set_orderedIds: "set (orderedIds f ps) = pid ` set ps"
  by (simp add: orderedIds_def Let_def image_image)

lemma runInv_init:
  assumes "\<forall>p\<in>set ps. (row p, column p) \<in> set (allSeats (rows ac) (columns ac))"
  shows "runInv (setBoardingOrder (orderedIds f ps) (Simulation ps (freshLayout ac)))"
proof -
  let ?S = "Simulation ps (freshLayout ac)"
  have ac: "aircraft (setBoardingOrder (orderedIds f ps) ?S) = freshLayout ac"
    using reset_fresh [OF layoutOk_fresh, of ac]
    by (simp add: setBoardingOrder_def Simulation_def reset_def freshLayout_def Aircraft_def)
  have "seatsIn (setBoardingOrder (orderedIds f ps) ?S)"
    using assms unfolding seatsIn_def ac
    by (simp add: freshLayout_def seat_keys_Aircraft)
  moreover have "queueOk (setBoardingOrder (orderedIds f ps) ?S)"
  proof -
    have "\<exists>k. map_option (\<lambda>_. i) (map_of (passengerStates ?S) i) = Some k
              \<and> k \<in> fst ` set (passengerStates ?S)" if "i \<in> set (orderedIds f ps)" for i
    proof -
      from that have "i \<in> pid ` set ps" by (simp add: set_orderedIds)
      from initial_waiting [OF this, of "freshLayout ac"] obtain q
        where q: "map_of (passengerStates ?S) i = Some q" by blast
      then have "i \<in> fst ` set (passengerStates ?S)" by (rule map_of_key)
      then show ?thesis using q by simp
    qed
    then show ?thesis by (auto simp: queueOk_def setBoardingOrder_def)
  qed
  ultimately show ?thesis using simInv_Simulation [of "orderedIds f ps" ps "freshLayout ac"]
    by (simp add: runInv_def)
qed

lemma evaluateScenarios_fresh:
  assumes "layoutOk ac"
    and "\<forall>ps\<in>set scs. \<forall>p\<in>set ps. (row p, column p) \<in> set (allSeats (rows ac) (columns ac))"
  shows "\<exists>ts ac'. map (freshEvaluation f ac) scs = map Inr ts
           \<and> evaluateScenarios f scs ac t0 = Inr (t0 + sum_list ts, ac')
           \<and> layoutOk ac' \<and> shape ac' = shape ac"
  using assms
proof (induction scs arbitrary: ac t0)
  case Nil
  then show ?case by simp
next
  case (Cons ps scs)
  let ?sim = "setBoardingOrder (orderedIds f ps) (Simulation ps (freshLayout ac))"
  have sim: "setBoardingOrder (orderedIds f ps) (Simulation ps ac) = ?sim"
    using Simulation_fresh [OF Cons.prems(1)] by simp
  have "runInv ?sim" using Cons.prems(2) by (intro runInv_init) simp
  from runInv_runToCompletion [OF this, of 5000] obtain n s' where
    r: "runToCompletion 5000 ?sim = Inr (n, s')" "shape (aircraft s') = shape (aircraft ?sim)"
    by blast
  have "aircraft ?sim = freshLayout ac"
    using reset_fresh [OF layoutOk_fresh, of ac]
    by (simp add: setBoardingOrder_def Simulation_def reset_def freshLayout_def Aircraft_def)
  then have sh: "shape (aircraft s') = shape ac"
    using r(2) Cons.prems(1) by (simp add: layoutOk_def)
  have ok: "layoutOk (aircraft s')" using sh Cons.prems(1) by (rule layoutOk_shape)
  have cfg: "rows (aircraft s') = rows ac" "columns (aircraft s') = columns ac"
    using sh by (simp_all add: shape_def)
  have "\<forall>ps\<in>set scs. \<forall>p\<in>set ps.
          (row p, column p) \<in> set (allSeats (rows (aircraft s')) (columns (aircraft s')))"
    using Cons.prems(2) cfg by simp
  from Cons.IH [OF ok this, of "t0 + n"] obtain ts ac' where
    ih: "map (freshEvaluation f (aircraft s')) scs = map Inr ts"
        "evaluateScenarios f scs (aircraft s') (t0 + n) = Inr (t0 + n + sum_list ts, ac')"
        "layoutOk ac'" "shape ac' = shape (aircraft s')"
    by blast
  have fe: "freshEvaluation f (aircraft s') = freshEvaluation f ac"
    using freshLayout_shape [OF sh] by (intro ext) (simp add: freshEvaluation_def)
  have one: "freshEvaluation f ac ps = Inr n"
    using r(1) by (simp add: freshEvaluation_def freshLayout_def)
  have "evaluateScenarios f (ps # scs) ac t0 = Inr (t0 + sum_list (n # ts), ac')"
    using sim r(1) ih(2) by (simp add: add.assoc)
  moreover have "map (freshEvaluation f ac) (ps # scs) = map Inr (n # ts)"
    using one ih(1) fe by simp
  ultimately show ?case using ih(3,4) sh by (intro exI [of _ "n # ts"] exI [of _ ac']) simp
qed

lemma sortByFitness_sorted:
  assumes "\<forall>x\<in>set pop. \<exists>v. snd x = Finite v"
  shows "sorted_wrt (\<lambda>a b. \<not> jsGreater (snd a) (snd b)) (sortByFitness pop)"
proof -
  let ?popR = "map (apsnd comparatorValue) pop"
  let ?srt = "js_sort (\<lambda>a b. snd a - snd b) ?popR"
  have "map (apsnd Finite) ?popR = map (\<lambda>x. x) pop"
    unfolding map_map by (rule map_cong) (use assms in \<open>auto simp: apsnd_def map_prod_def split: prod.splits\<close>)
  then have e1: "pop = map (apsnd Finite) ?popR" by simp
  have e2: "js_sort (\<lambda>a b. comparatorValue (jsMinus (snd a) (snd b))) (map (apsnd Finite) ?popR)
              = map (apsnd Finite) ?srt"
    by (rule js_sort_map) simp
  have s: "sortByFitness pop = map (apsnd Finite) ?srt"
    unfolding sortByFitness_def using e1 e2 by simp
  have "sorted_wrt (\<lambda>a b. - snd a \<ge> - snd b) (js_sort (\<lambda>a b. (- snd b) - (- snd a)) ?popR)"
    by (rule js_sort_desc)
  then have "sorted_wrt (\<lambda>a b. snd a \<le> snd b) ?srt" by simp
  then show ?thesis unfolding s by (simp add: sorted_wrt_map not_less)
qed

lemma jsGreater_finite_trans:
  "\<not> jsGreater b (Finite l) \<Longrightarrow> l \<le> v \<Longrightarrow> \<not> jsGreater b (Finite v)"
  by (cases b) simp_all

lemma updateBest_lowest:
  assumes fin: "\<forall>x\<in>set pop. \<exists>v. snd x = Finite v"
    and ub: "updateBest best (sortByFitness pop) = Inr chosen"
  shows "\<forall>x\<in>set pop. \<not> jsGreater (snd chosen) (snd x)"
    and "\<forall>b. best = Some b \<longrightarrow> \<not> jsGreater (snd chosen) (snd b)"
    and "chosen \<in> set pop \<or> best = Some chosen"
proof -
  from ub obtain lowest rest where l: "sortByFitness pop = lowest # rest"
    by (cases "sortByFitness pop") (simp_all add: updateBest_def)
  have "set (sortByFitness pop) = set pop" by (simp add: sortByFitness_def)
  then have s: "set pop = insert lowest (set rest)" unfolding l by simp
  from fin s obtain lv where lv: "snd lowest = Finite lv" by auto
  have "\<forall>x\<in>set rest. \<not> jsGreater (snd lowest) (snd x)"
    using sortByFitness_sorted [OF fin] unfolding l by simp
  then have low: "\<forall>x\<in>set pop. \<not> jsGreater (snd lowest) (snd x)"
    unfolding s by (simp add: jsGreater_irrefl)
  have c: "chosen = (case best of None \<Rightarrow> lowest
                     | Some b \<Rightarrow> if jsGreater (snd b) (snd lowest) then lowest else b)"
    using ub l by (cases best) (auto simp: updateBest_def split: if_splits)
  show "\<forall>x\<in>set pop. \<not> jsGreater (snd chosen) (snd x)"
  proof
    fix x assume x: "x \<in> set pop"
    from fin x obtain v where v: "snd x = Finite v" by auto
    have lx: "lv \<le> v" using low x lv v by auto
    show "\<not> jsGreater (snd chosen) (snd x)"
    proof (cases "chosen = lowest")
      case True
      then show ?thesis using low x by simp
    next
      case False
      then obtain b where b: "best = Some b" "chosen = b" "\<not> jsGreater (snd b) (snd lowest)"
        using c by (auto split: option.splits if_splits)
      from b(3) lx show ?thesis unfolding b(2) lv v by (rule jsGreater_finite_trans)
    qed
  qed
  show "\<forall>b. best = Some b \<longrightarrow> \<not> jsGreater (snd chosen) (snd b)"
    unfolding c by (auto split: option.splits simp: jsGreater_irrefl dest: jsGreater_asym)
  show "chosen \<in> set pop \<or> best = Some chosen"
    unfolding c s by (auto split: option.splits)
qed

lemma evaluateFitness_three:
  assumes ok: "layoutOk ac"
    and seats: "\<forall>ps\<in>set [p0, p1, p2]. \<forall>p\<in>set ps.
                  (row p, column p) \<in> set (allSeats (rows ac) (columns ac))"
  shows "\<exists>t0 t1 t2 ac'.
           freshEvaluation (createPriorityFn w) ac p0 = Inr t0
         \<and> freshEvaluation (createPriorityFn w) ac p1 = Inr t1
         \<and> freshEvaluation (createPriorityFn w) ac p2 = Inr t2
         \<and> evaluateFitness createPriorityFn w [p0, p1, p2] ac
             = Inr (Finite (real_of_int (t0 + t1 + t2) / 3), ac')
         \<and> layoutOk ac' \<and> shape ac' = shape ac"
proof -
  from evaluateScenarios_fresh [OF ok seats, of "createPriorityFn w" 0] obtain ts ac' where
    e: "map (freshEvaluation (createPriorityFn w) ac) [p0, p1, p2] = map Inr ts"
       "evaluateScenarios (createPriorityFn w) [p0, p1, p2] ac 0 = Inr (0 + sum_list ts, ac')"
       "layoutOk ac'" "shape ac' = shape ac"
    by blast
  from e(1) have "length ts = 3"
    using length_map [of Inr ts]
      length_map [of "freshEvaluation (createPriorityFn w) ac" "[p0, p1, p2]"] by simp
  then obtain t0 t1 t2 where ts: "ts = [t0, t1, t2]"
    by (cases ts; simp; cases "tl ts"; simp; cases "tl (tl ts)"; simp)
  have "evaluateFitness createPriorityFn w [p0, p1, p2] ac
          = Inr (Finite (real_of_int (t0 + t1 + t2) / 3), ac')"
    using e(2) unfolding ts evaluateFitness_def by simp
  then show ?thesis using e(1,3,4) unfolding ts by auto
qed




lemma twoSeater_ok: "layoutOk twoSeater"
  by (simp add: twoSeater_def layoutOk_def freshLayout_def Aircraft_def)

lemma sample_best:
  "updateBest (Some ((), Finite 2)) (sortByFitness [((), Finite 3), ((), Finite 1)])
     = Inr ((), Finite 1)"
  by (simp add: updateBest_def sortByFitness_def)


end
